theory Spec2Isabelle
  imports Complex_Main
begin

section \<open>Picking a node other than the given ones\<close>

text \<open>
  \<^verbatim>\<open>Other(rafts []*raft.Raft, indexes ...int) int\<close> of cluster.go. The outer loop
  ranges over the positions \<open>j\<close> of \<open>rafts\<close>; the inner loop looks for \<open>j\<close> among
  \<open>indexes\<close> and breaks at the first hit. Go's \<open>int\<close> is modelled as \<open>int\<close>: a
  position of a slice never overflows it.
\<close>

text \<open>The inner loop: the value of the flag \<open>different\<close> when it ends.\<close>

fun different :: "int list \<Rightarrow> int \<Rightarrow> bool" where
  "different [] j = True"
| "different (i # indexes) j = (if i = j then False else different indexes j)"

text \<open>The outer loop, entered at position \<open>j\<close> with the rest of the slice.\<close>

fun Other_loop :: "'r list \<Rightarrow> int \<Rightarrow> int list \<Rightarrow> int" where
  "Other_loop [] j indexes = - 1"
| "Other_loop (r # rafts) j indexes =
     (if different indexes j then j else Other_loop rafts (j + 1) indexes)"

definition Other :: "'r list \<Rightarrow> int list \<Rightarrow> int" where
  "Other rafts indexes = Other_loop rafts 0 indexes"

section \<open>The leadership aggregator\<close>

text \<open>
  \<^verbatim>\<open>leadershipChange\<close>: the node whose leadership status changed and whether leadership
  was acquired or lost.
\<close>

record leadershipChange =
  On :: int
  Acquired :: bool

text \<open>
  A per-node notify channel (\<^verbatim>\<open>chan bool\<close>), seen from the receiver: the values its node
  sends, first in first out, and whether the node closes the channel after them. A
  receive takes the oldest value with \<open>ok = True\<close>; on a drained and closed channel it
  yields the zero value \<open>False\<close> with \<open>ok = False\<close>; on a drained open channel it is not
  ready.
\<close>

record notifyCh =
  pending :: "bool list"
  closes :: bool

definition recv :: "notifyCh \<Rightarrow> (bool \<times> bool \<times> notifyCh) option" where
  "recv c =
     (case pending c of
        v # vs \<Rightarrow> Some (v, True, c\<lparr>pending := vs\<rparr>)
      | [] \<Rightarrow> if closes c then Some (False, False, c) else None)"

text \<open>
  \<^verbatim>\<open>reflect.Select(cases)\<close>: the runtime picks a ready case; the pick \<open>i\<close> is a position
  in the slice \<open>cases\<close>, whose entry names the node that owns the channel. \<open>None\<close> when
  the picked case is not ready (the call would still block).
\<close>

definition reflect_Select ::
  "notifyCh list \<Rightarrow> nat list \<Rightarrow> nat \<Rightarrow> (bool \<times> bool \<times> notifyCh list) option" where
  "reflect_Select chans cases i =
     (if i < length cases \<and> cases ! i < length chans
      then (case recv (chans ! (cases ! i)) of
              None \<Rightarrow> None
            | Some (value, ok, c) \<Rightarrow> Some (value, ok, chans[cases ! i := c]))
      else None)"

text \<open>
  The state of \<^verbatim>\<open>NotifyKnob.watch\<close>: the per-node channels \<open>notifyChs\<close>, the slice
  \<open>cases\<close> of select cases, and the output channel \<open>k.ch\<close>. The output channel is made
  without a buffer, so a send on it completes only when the test receives: \<open>ch\<close> holds
  the events that the test has received so far, and \<open>sending\<close> the event on which the
  goroutine is blocked, if it is.
\<close>

record watcher =
  notifyChs :: "notifyCh list"
  cases :: "nat list"
  ch :: "leadershipChange list"
  sending :: "leadershipChange option"

text \<open>
  The loop \<^verbatim>\<open>for len(cases) > 1\<close>, driven by the picks of the runtime, one per
  iteration, and by \<open>takers\<close>, the number of receives that the test still performs on
  the output channel. The loop is entered with no send pending. When the picks run out,
  or a pick is not ready, the state reached so far is returned. In the body the closed channel is cut out of \<open>cases\<close> when \<open>ok\<close>
  is false, and then, in either case, \<^verbatim>\<open>leadershipChange{On: i, Acquired: value.Bool()}\<close>
  is sent; with no receive left the goroutine stays blocked on that send.
\<close>

fun watch_loop :: "nat list \<Rightarrow> nat \<Rightarrow> watcher \<Rightarrow> watcher" where
  "watch_loop [] takers k = k"
| "watch_loop (i # picks) takers k =
     (if 1 < length (cases k)
      then (case reflect_Select (notifyChs k) (cases k) i of
              None \<Rightarrow> k
            | Some (value, ok, chans) \<Rightarrow>
                (case takers of
                   0 \<Rightarrow>
                     \<lparr>notifyChs = chans,
                      cases = (if \<not> ok then take i (cases k) @ drop (Suc i) (cases k) else cases k),
                      ch = ch k,
                      sending = Some \<lparr>On = int i, Acquired = value\<rparr>\<rparr>
                 | Suc takers' \<Rightarrow>
                     watch_loop picks takers'
                       \<lparr>notifyChs = chans,
                        cases = (if \<not> ok then take i (cases k) @ drop (Suc i) (cases k) else cases k),
                        ch = ch k @ [\<lparr>On = int i, Acquired = value\<rparr>],
                        sending = None\<rparr>))
      else k)"

text \<open>\<^verbatim>\<open>watch\<close> starts with one select case per node, in node order.\<close>

definition watch :: "nat list \<Rightarrow> nat \<Rightarrow> notifyCh list \<Rightarrow> watcher" where
  "watch picks takers chans =
     watch_loop picks takers
       \<lparr>notifyChs = chans, cases = [0..<length chans], ch = [], sending = None\<rparr>"




section \<open>Waiting for the next matching leadership change\<close>

text \<open>
  Every way in which the harness ends a test: a call of \<^verbatim>\<open>t.Fatalf\<close>, or a run-time panic
  of the Go code.
\<close>

datatype error =
    NoNotification
  | NotConfirmed
  | IndexOutOfRange
  | KnobFailed
  | NoWithPeers nat
  | BootstrapFailed
  | NilNode
  | StartFailed nat
  | ShutdownTimeout
  | ShutdownFailed string

text \<open>
  What the output channel \<open>k.ch\<close> offers to one call of \<^verbatim>\<open>next\<close>: the event, and the
  time \<open>wait\<close> (in nanoseconds, as \<^verbatim>\<open>time.Duration\<close> counts) from the start of the call
  until the aggregator offers it. The same time is what \<^verbatim>\<open>time.Since(start)\<close> measures
  in \<^verbatim>\<open>nextMatching\<close> once the call has returned. When the event and the timer are
  ready at the same instant the runtime picks either; \<open>wins_tie\<close> says whether it picks
  the event. A \<^verbatim>\<open>time.Duration\<close> is an \<open>int\<close> here: the sums of waits stay far from the
  ends of 64 bits.
\<close>

record arrival =
  wait :: int
  info :: leadershipChange
  wins_tie :: bool

text \<open>
  \<^verbatim>\<open>next(timeout)\<close>: a select between a receive on \<open>k.ch\<close> and \<^verbatim>\<open>time.After(timeout)\<close>,
  whose timer fires at once when \<open>timeout\<close> is not positive. \<open>None\<close> stands for an output
  channel on which nothing is offered any more: only the timer can fire.
\<close>

definition next_info :: "int \<Rightarrow> arrival option \<Rightarrow> error + leadershipChange" where
  "next_info timeout offered =
     (case offered of
        None \<Rightarrow> Inl NoNotification
      | Some a \<Rightarrow>
          if wait a < max 0 timeout \<or> (wait a = max 0 timeout \<and> wins_tie a)
          then Inr (info a)
          else Inl NoNotification)"

text \<open>
  \<^verbatim>\<open>nextMatching(timeout, acquired)\<close>, run against the events the output channel offers
  in turn. \<open>rafts\<close> is the length of \<open>k.rafts\<close>, indexed by \<open>info.On\<close>. The helpers
  \<^verbatim>\<open>WaitLeader\<close> and \<^verbatim>\<open>waitTimeout\<close> are not part of the sources at hand; they are the
  parameter \<open>confirmed\<close>, which says for the polarity, the node and the timeout handed
  over whether the node's state is confirmed in time (otherwise the helper fails the
  test).
\<close>

fun nextMatching ::
  "(bool \<Rightarrow> int \<Rightarrow> int \<Rightarrow> bool) \<Rightarrow> nat \<Rightarrow> int \<Rightarrow> bool \<Rightarrow> arrival list \<Rightarrow> error + int" where
  "nextMatching confirmed rafts timeout acquired [] =
     (case next_info timeout None of Inl e \<Rightarrow> Inl e | Inr i \<Rightarrow> Inl NoNotification)"
| "nextMatching confirmed rafts timeout acquired (a # offered) =
     (case next_info timeout (Some a) of
        Inl e \<Rightarrow> Inl e
      | Inr i \<Rightarrow>
          if Acquired i \<noteq> acquired
          then nextMatching confirmed rafts (timeout - wait a) acquired offered
          else if On i < 0 \<or> int rafts \<le> On i then Inl IndexOutOfRange
          else if confirmed acquired (On i) timeout then Inr (On i)
          else Inl NotConfirmed)"

definition NextAcquired ::
  "(bool \<Rightarrow> int \<Rightarrow> int \<Rightarrow> bool) \<Rightarrow> nat \<Rightarrow> int \<Rightarrow> arrival list \<Rightarrow> error + int" where
  "NextAcquired confirmed rafts timeout offered = nextMatching confirmed rafts timeout True offered"

definition NextLost ::
  "(bool \<Rightarrow> int \<Rightarrow> int \<Rightarrow> bool) \<Rightarrow> nat \<Rightarrow> int \<Rightarrow> arrival list \<Rightarrow> error + int" where
  "NextLost confirmed rafts timeout offered = nextMatching confirmed rafts timeout False offered"

text \<open>
  A stand-in for the confirmation helpers in the examples: a node whose state already
  is what the event says, so that the first evaluation of the condition succeeds.
\<close>

definition settled_at_once :: "bool \<Rightarrow> int \<Rightarrow> int \<Rightarrow> bool" where
  "settled_at_once acquired node timeout = True"

text \<open>
  Two more stand-ins: a node whose state never becomes what the event says, so that the
  helper fails the test whatever the timeout; and a node whose state takes ten
  nanoseconds to settle, so that the helper succeeds just when it is handed a timeout of
  at least ten.
\<close>

definition never_settles :: "bool \<Rightarrow> int \<Rightarrow> int \<Rightarrow> bool" where
  "never_settles acquired node timeout = False"

definition settles_in_10 :: "bool \<Rightarrow> int \<Rightarrow> int \<Rightarrow> bool" where
  "settles_in_10 acquired node timeout = (10 \<le> timeout)"

section \<open>Dependencies of a node\<close>

text \<open>
  \<^verbatim>\<open>strconv.Itoa\<close> on a node index, which is never negative.
\<close>

definition digit :: "nat \<Rightarrow> char" where
  "digit d = ''0123456789'' ! d"

fun Itoa :: "nat \<Rightarrow> string" where
  "Itoa i = (if i < 10 then [digit i] else Itoa (i div 10) @ [digit (i mod 10)])"

declare Itoa.simps [simp del]

text \<open>\<^verbatim>\<open>time.Duration\<close> counts nanoseconds.\<close>

definition Millisecond :: int where
  "Millisecond = 1000000"

definition Second :: int where
  "Second = 1000 * Millisecond"

text \<open>
  Modelled from the spec: the helper \<^verbatim>\<open>Duration\<close>, which scales a default timeout by
  the latency multiplier of the environment, is not among the sources at hand. The spec
  has a positive real multiplier that scales every default timeout proportionally and
  leaves it unchanged at 1.0; the scaled value is cut down to whole nanoseconds.
\<close>

definition Duration :: "real \<Rightarrow> int \<Rightarrow> int" where
  "Duration latency d = \<lfloor>latency * real_of_int d\<rfloor>"

text \<open>
  A transport, as far as the harness looks at it: its local address, and whether it
  implements \<^verbatim>\<open>raft.WithPeers\<close> (the in-memory transport does).
\<close>

record transport =
  LocalAddr :: string
  WithPeers :: bool

text \<open>
  The fields of \<^verbatim>\<open>raft.Config\<close> that the harness sets. \<open>NotifyCh\<close> names the node whose
  notify channel is installed, if any.
\<close>

record config =
  LocalID :: string
  HeartbeatTimeout :: int
  ElectionTimeout :: int
  LeaderLeaseTimeout :: int
  CommitTimeout :: int
  NotifyCh :: "nat option"

text \<open>
  \<^verbatim>\<open>node\<close>: the dependencies of a single node. The log, stable and snapshot stores are
  fresh in-memory stores that the harness only hands on to the engine; they carry no
  field here.
\<close>

record node =
  Config :: config
  Transport :: transport
  Bootstrap :: bool

text \<open>
  \<^verbatim>\<open>newDefaultNode(t, i)\<close>, with the latency multiplier of the environment made a
  parameter.
\<close>

definition newDefaultNode :: "real \<Rightarrow> nat \<Rightarrow> node" where
  "newDefaultNode latency i =
     \<lparr>Config =
        \<lparr>LocalID = Itoa i,
         HeartbeatTimeout = Duration latency (10 * Millisecond),
         ElectionTimeout = Duration latency (10 * Millisecond),
         LeaderLeaseTimeout = Duration latency (10 * Millisecond),
         CommitTimeout = Duration latency (5 * Millisecond),
         NotifyCh = None\<rparr>,
      Transport = \<lparr>LocalAddr = Itoa i, WithPeers = True\<rparr>,
      Bootstrap = True\<rparr>"

section \<open>Bootstrapping the cluster\<close>

text \<open>
  A server of a \<^verbatim>\<open>raft.Configuration\<close>: its id and its address. The calls that
  \<^verbatim>\<open>bootstrapCluster\<close> makes on the engine are logged in the order in which they are
  made: \<open>Connect i j\<close> for \<^verbatim>\<open>peers.Connect\<close> on the transport of node \<open>i\<close> with the
  transport of node \<open>j\<close>, and \<open>BootstrapCall i servers\<close> for \<^verbatim>\<open>raft.BootstrapCluster\<close>
  on the stores of node \<open>i\<close>.
\<close>

type_synonym server = "string \<times> string"

datatype call = Connect nat nat | BootstrapCall nat "server list"

text \<open>
  Go leaves the order of a \<^verbatim>\<open>range\<close> over a map open, and it may differ from one loop
  to the next. The three loops over \<open>nodes\<close> get their orders from outside: the outer
  loop, the inner loop (one order for each outer key), and the bootstrap loop.
\<close>

record orders =
  range_outer :: "nat list"
  range_inner :: "nat \<Rightarrow> nat list"
  range_boot :: "nat list"

text \<open>
  The inner loop of \<^verbatim>\<open>bootstrapCluster\<close> for the node \<open>node1\<close> at key \<open>i\<close>. The map
  holds one freshly allocated node per key, so the comparison of pointers
  \<^verbatim>\<open>node2 == node1\<close> is the comparison of keys. The type assertion to \<^verbatim>\<open>raft.WithPeers\<close>
  stands after the \<^verbatim>\<open>continue\<close>.
\<close>

fun connect_peers ::
  "(nat \<rightharpoonup> node) \<Rightarrow> nat \<Rightarrow> node \<Rightarrow> nat list \<Rightarrow> call list \<Rightarrow> error + call list" where
  "connect_peers nodes i node1 [] calls = Inr calls"
| "connect_peers nodes i node1 (j # js) calls =
     (case nodes j of
        None \<Rightarrow> connect_peers nodes i node1 js calls
      | Some node2 \<Rightarrow>
          if j = i \<or> \<not> Bootstrap node2 then connect_peers nodes i node1 js calls
          else if \<not> WithPeers (Transport node1) then Inl (NoWithPeers i)
          else connect_peers nodes i node1 js (calls @ [Connect i j]))"

text \<open>The outer loop: it collects \<open>servers\<close> and connects the peers.\<close>

fun collect_servers ::
  "(nat \<rightharpoonup> node) \<Rightarrow> (nat \<Rightarrow> nat list) \<Rightarrow> nat list \<Rightarrow> server list \<Rightarrow> call list
     \<Rightarrow> error + server list \<times> call list" where
  "collect_servers nodes inner [] servers calls = Inr (servers, calls)"
| "collect_servers nodes inner (i # keys) servers calls =
     (case nodes i of
        None \<Rightarrow> collect_servers nodes inner keys servers calls
      | Some node1 \<Rightarrow>
          if \<not> Bootstrap node1 then collect_servers nodes inner keys servers calls
          else (case connect_peers nodes i node1 (inner i) calls of
                  Inl e \<Rightarrow> Inl e
                | Inr calls' \<Rightarrow>
                    collect_servers nodes inner keys
                      (servers @ [(Itoa i, LocalAddr (Transport node1))]) calls'))"

text \<open>
  The last loop: one call of \<^verbatim>\<open>raft.BootstrapCluster\<close> per bootstrapping node.
  \<open>fails i configuration\<close> says whether the engine returns an error for node \<open>i\<close>.
\<close>

fun bootstrap_all ::
  "(nat \<Rightarrow> server list \<Rightarrow> bool) \<Rightarrow> (nat \<rightharpoonup> node) \<Rightarrow> server list \<Rightarrow> nat list \<Rightarrow> call list
     \<Rightarrow> error + call list" where
  "bootstrap_all fails nodes configuration [] calls = Inr calls"
| "bootstrap_all fails nodes configuration (i # keys) calls =
     (case nodes i of
        None \<Rightarrow> bootstrap_all fails nodes configuration keys calls
      | Some nd \<Rightarrow>
          if \<not> Bootstrap nd then bootstrap_all fails nodes configuration keys calls
          else if fails i configuration then Inl BootstrapFailed
          else bootstrap_all fails nodes configuration keys (calls @ [BootstrapCall i configuration]))"

definition bootstrapCluster ::
  "orders \<Rightarrow> (nat \<Rightarrow> server list \<Rightarrow> bool) \<Rightarrow> (nat \<rightharpoonup> node) \<Rightarrow> error + call list" where
  "bootstrapCluster ord fails nodes =
     (case collect_servers nodes (range_inner ord) (range_outer ord) [] [] of
        Inl e \<Rightarrow> Inl e
      | Inr (servers, calls) \<Rightarrow> bootstrap_all fails nodes servers (range_boot ord) calls)"

text \<open>
  The words of the spec, to compare the code with: a node bootstraps when its flag is
  set, and the bootstrap membership is the list of the pairs of id and address of the
  bootstrapping nodes.
\<close>

definition bootstraps :: "(nat \<rightharpoonup> node) \<Rightarrow> nat \<Rightarrow> bool" where
  "bootstraps nodes i = (case nodes i of None \<Rightarrow> False | Some nd \<Rightarrow> Bootstrap nd)"

definition address :: "(nat \<rightharpoonup> node) \<Rightarrow> nat \<Rightarrow> string" where
  "address nodes i = (case nodes i of None \<Rightarrow> [] | Some nd \<Rightarrow> LocalAddr (Transport nd))"

definition membership :: "(nat \<rightharpoonup> node) \<Rightarrow> nat list \<Rightarrow> server list" where
  "membership nodes keys = map (\<lambda>i. (Itoa i, address nodes i)) (filter (bootstraps nodes) keys)"

definition peer_calls :: "(nat \<rightharpoonup> node) \<Rightarrow> nat list \<Rightarrow> nat \<Rightarrow> call list" where
  "peer_calls nodes keys i = map (Connect i) (filter (\<lambda>j. j \<noteq> i \<and> bootstraps nodes j) keys)"

definition lacks_peers :: "(nat \<rightharpoonup> node) \<Rightarrow> (nat \<Rightarrow> nat list) \<Rightarrow> nat \<Rightarrow> bool" where
  "lacks_peers nodes inner i =
     (case nodes i of
        None \<Rightarrow> False
      | Some nd \<Rightarrow> Bootstrap nd \<and> \<not> WithPeers (Transport nd)
                    \<and> (\<exists>j\<in>set (inner i). j \<noteq> i \<and> bootstraps nodes j))"

text \<open>Examples: a single node whose transport has no \<^verbatim>\<open>Connect\<close>, and an engine that bootstraps.\<close>

definition lone_node :: node where
  "lone_node = (newDefaultNode 1 0)\<lparr>Transport := \<lparr>LocalAddr = ''0'', WithPeers = False\<rparr>\<rparr>"

definition lone_nodes :: "nat \<rightharpoonup> node" where
  "lone_nodes = [0 \<mapsto> lone_node]"

definition lone_orders :: orders where
  "lone_orders = \<lparr>range_outer = [0], range_inner = (\<lambda>i. [0]), range_boot = [0]\<rparr>"

definition never_fails :: "nat \<Rightarrow> server list \<Rightarrow> bool" where
  "never_fails i configuration = False"

text \<open>
  Examples: three nodes of which node 1 is opted out of the bootstrap, with the three
  loops ranging over the map in different orders, and an engine on which the bootstrap
  of node 2 fails.
\<close>

definition trio_nodes :: "nat \<rightharpoonup> node" where
  "trio_nodes =
     [0 \<mapsto> newDefaultNode 1 0, 1 \<mapsto> (newDefaultNode 1 1)\<lparr>Bootstrap := False\<rparr>,
      2 \<mapsto> newDefaultNode 1 2]"

definition trio_orders :: orders where
  "trio_orders = \<lparr>range_outer = [2, 0, 1], range_inner = (\<lambda>i. [0, 1, 2]), range_boot = [1, 2, 0]\<rparr>"

definition node2_fails :: "nat \<Rightarrow> server list \<Rightarrow> bool" where
  "node2_fails i configuration = (i = 2)"

section \<open>Shutting the nodes down\<close>

text \<open>
  What \<^verbatim>\<open>r.Shutdown()\<close> hands back: a future. \<open>done_at\<close> is the time, in nanoseconds from
  the arming of the timer \<^verbatim>\<open>time.After(5 * time.Second)\<close>, at which \<^verbatim>\<open>future.Error()\<close>
  returns and its goroutine sends the result on \<open>errors\<close>; \<open>err\<close> is that result, \<open>None\<close>
  for \<open>nil\<close>. When a result and the timer are ready at the same instant the runtime
  picks either; \<open>before_timer\<close> says whether it picks the result.
\<close>

record future =
  done_at :: int
  err :: "string option"
  before_timer :: bool

text \<open>What \<open>Shutdown\<close> does, in order.\<close>

datatype action = Request nat | Received "string option" | TimerFired

text \<open>
  The loop \<^verbatim>\<open>for _ = range futures\<close> with its select, run against the results in the
  order in which they reach the channel \<open>errors\<close>. The timer is armed once, before the
  loop, and the same timer is selected on in every iteration.
\<close>

fun collect :: "int \<Rightarrow> future list \<Rightarrow> action list \<Rightarrow> action list \<times> error option" where
  "collect timeout [] acts = (acts, None)"
| "collect timeout (f # arriving) acts =
     (if done_at f < timeout \<or> (done_at f = timeout \<and> before_timer f)
      then (case err f of
              Some e \<Rightarrow> (acts @ [Received (Some e)], Some (ShutdownFailed e))
            | None \<Rightarrow> collect timeout arriving (acts @ [Received None]))
      else (acts @ [TimerFired], Some ShutdownTimeout))"

text \<open>
  \<^verbatim>\<open>Shutdown(t, rafts)\<close>. \<open>shutdown\<close> is the engine: the future that the shutdown of a
  node hands back. The first loop requests the shutdown of every node; the results then
  reach \<open>errors\<close> in the order of their times. The outcome is \<open>None\<close> when the function
  returns, and the fatal failure otherwise.
\<close>

definition Shutdown :: "('r \<Rightarrow> future) \<Rightarrow> 'r list \<Rightarrow> action list \<times> error option" where
  "Shutdown shutdown rafts =
     (let futures = map shutdown rafts;
          requests = map Request [0..<length rafts]
      in collect (5 * Second) (sort_key done_at futures) requests)"

section \<open>Building the cluster\<close>

text \<open>
  \<^verbatim>\<open>Knob\<close>: the two hooks. \<open>pre\<close> may change the map of nodes, and as any code that
  holds the test handle it may fail the test; \<open>post\<close> is handed the nodes that were
  started and returns nothing, unless it fails the test.
\<close>

record 'r knob =
  pre :: "(nat \<rightharpoonup> node) \<Rightarrow> error + (nat \<rightharpoonup> node)"
  post :: "'r list \<Rightarrow> error option"

text \<open>The two loops over \<open>knobs\<close>.\<close>

fun run_pre :: "'r knob list \<Rightarrow> (nat \<rightharpoonup> node) \<Rightarrow> error + (nat \<rightharpoonup> node)" where
  "run_pre [] nodes = Inr nodes"
| "run_pre (knob # knobs) nodes =
     (case pre knob nodes of Inl e \<Rightarrow> Inl e | Inr nodes' \<Rightarrow> run_pre knobs nodes')"

fun run_post :: "'r knob list \<Rightarrow> 'r list \<Rightarrow> error option" where
  "run_post [] rafts = None"
| "run_post (knob # knobs) rafts =
     (case post knob rafts of Some e \<Rightarrow> Some e | None \<Rightarrow> run_post knobs rafts)"

text \<open>The loop \<^verbatim>\<open>for i := 0; i < n; i++\<close> that fills the map with default nodes.\<close>

definition default_nodes :: "real \<Rightarrow> nat \<Rightarrow> (nat \<rightharpoonup> node)" where
  "default_nodes latency n =
     fold (\<lambda>i nodes. nodes(i \<mapsto> newDefaultNode latency i)) [0..<n] Map.empty"

text \<open>
  The loop \<^verbatim>\<open>for i := range fsms\<close> that starts the nodes, entered at index \<open>i\<close>.
  \<open>NewRaft\<close> is the engine's constructor behind \<^verbatim>\<open>newRaft\<close>, \<open>None\<close> for an error. A key
  that a knob has removed from the map reads as a nil pointer, which \<^verbatim>\<open>newRaft\<close>
  dereferences.
\<close>

fun newRafts ::
  "('f \<Rightarrow> node \<Rightarrow> 'r option) \<Rightarrow> (nat \<rightharpoonup> node) \<Rightarrow> nat \<Rightarrow> 'f list \<Rightarrow> error + 'r list" where
  "newRafts NewRaft nodes i [] = Inr []"
| "newRafts NewRaft nodes i (fsm # fsms) =
     (case nodes i of
        None \<Rightarrow> Inl NilNode
      | Some nd \<Rightarrow>
          (case NewRaft fsm nd of
             None \<Rightarrow> Inl (StartFailed i)
           | Some raft \<Rightarrow>
               (case newRafts NewRaft nodes (Suc i) fsms of
                  Inl e \<Rightarrow> Inl e
                | Inr rafts \<Rightarrow> Inr (raft # rafts))))"

text \<open>
  What \<open>Cluster\<close> takes from its surroundings: the latency multiplier of the
  environment, the orders in which the runtime ranges over the map of nodes, and the
  engine's bootstrap and constructor.
\<close>

record ('f, 'r) engine =
  test_latency :: real
  map_ranges :: orders
  bootstrap_fails :: "nat \<Rightarrow> server list \<Rightarrow> bool"
  NewRaft :: "'f \<Rightarrow> node \<Rightarrow> 'r option"

text \<open>
  \<^verbatim>\<open>Cluster(t, fsms, knobs...)\<close>. It returns the nodes and the closure \<open>cleanup\<close>, which
  is \<open>Shutdown\<close> on these nodes.
\<close>

definition Cluster ::
  "('f, 'r) engine \<Rightarrow> 'f list \<Rightarrow> 'r knob list
     \<Rightarrow> error + 'r list \<times> (('r \<Rightarrow> future) \<Rightarrow> action list \<times> error option)" where
  "Cluster w fsms knobs =
     (let n = length fsms in
      case run_pre knobs (default_nodes (test_latency w) n) of
        Inl e \<Rightarrow> Inl e
      | Inr nodes \<Rightarrow>
          (case bootstrapCluster (map_ranges w) (bootstrap_fails w) nodes of
             Inl e \<Rightarrow> Inl e
           | Inr calls \<Rightarrow>
               (case newRafts (NewRaft w) nodes 0 fsms of
                  Inl e \<Rightarrow> Inl e
                | Inr rafts \<Rightarrow>
                    (case run_post knobs rafts of
                       Some e \<Rightarrow> Inl e
                     | None \<Rightarrow> Inr (rafts, \<lambda>shutdown. Shutdown shutdown rafts)))))"

text \<open>
  Examples: an engine that starts every node, the started node being the pair of its
  state machine and its id; a knob that opts node 1 out of the bootstrap; and nodes that
  shut down after one and after seven seconds.
\<close>

definition started :: "string \<Rightarrow> node \<Rightarrow> (string \<times> string) option" where
  "started fsm nd = Some (fsm, LocalID (Config nd))"

definition trio_engine :: "(string, string \<times> string) engine" where
  "trio_engine =
     \<lparr>test_latency = 1, map_ranges = trio_orders, bootstrap_fails = never_fails, NewRaft = started\<rparr>"

definition without_1 :: "(string \<times> string) knob" where
  "without_1 =
     \<lparr>pre = (\<lambda>nodes. Inr (case nodes 1 of
                            None \<Rightarrow> nodes
                          | Some nd \<Rightarrow> nodes(1 \<mapsto> nd\<lparr>Bootstrap := False\<rparr>))),
      post = (\<lambda>rafts. None)\<rparr>"

definition prompt :: "nat \<Rightarrow> future" where
  "prompt r = \<lparr>done_at = 1 * Second, err = None, before_timer = True\<rparr>"

definition second_slow :: "nat \<Rightarrow> future" where
  "second_slow r =
     \<lparr>done_at = (if r = 1 then 7 * Second else 3 * Second), err = None, before_timer = True\<rparr>"

section \<open>Properties of Other\<close>

lemma different_iff: "different indexes j \<longleftrightarrow> j \<notin> set indexes"
  by (induction indexes) auto

lemma Other_loop_cases:
  "(Other_loop rafts k indexes = - 1 \<and> (\<forall>j. k \<le> j \<and> j < k + int (length rafts) \<longrightarrow> j \<in> set indexes))
   \<or> (k \<le> Other_loop rafts k indexes \<and> Other_loop rafts k indexes < k + int (length rafts)
      \<and> Other_loop rafts k indexes \<notin> set indexes
      \<and> (\<forall>j. k \<le> j \<and> j < Other_loop rafts k indexes \<longrightarrow> j \<in> set indexes))"
proof (induction rafts arbitrary: k)
  case Nil
  have "Other_loop ([] :: 'a list) k indexes = - 1" by simp
  moreover have "\<forall>j. k \<le> j \<and> j < k + int (length ([] :: 'a list)) \<longrightarrow> j \<in> set indexes"
    by auto
  ultimately show ?case by blast
next
  case (Cons r rafts)
  show ?case
  proof (cases "k \<in> set indexes")
    case False
    then show ?thesis by (auto simp add: different_iff)
  next
    case True
    have step: "Other_loop (r # rafts) k indexes = Other_loop rafts (k + 1) indexes"
      using True by (simp add: different_iff)
    from Cons.IH [of "k + 1"] show ?thesis
    proof
      assume a: "Other_loop rafts (k + 1) indexes = - 1 \<and>
        (\<forall>j. k + 1 \<le> j \<and> j < k + 1 + int (length rafts) \<longrightarrow> j \<in> set indexes)"
      have "\<forall>j. k \<le> j \<and> j < k + int (length (r # rafts)) \<longrightarrow> j \<in> set indexes"
      proof (intro allI impI)
        fix j assume "k \<le> j \<and> j < k + int (length (r # rafts))"
        then have "j = k \<or> (k + 1 \<le> j \<and> j < k + 1 + int (length rafts))" by auto
        then show "j \<in> set indexes" using True a by blast
      qed
      then show ?thesis using a step by simp
    next
      assume b: "k + 1 \<le> Other_loop rafts (k + 1) indexes \<and>
        Other_loop rafts (k + 1) indexes < k + 1 + int (length rafts) \<and>
        Other_loop rafts (k + 1) indexes \<notin> set indexes \<and>
        (\<forall>j. k + 1 \<le> j \<and> j < Other_loop rafts (k + 1) indexes \<longrightarrow> j \<in> set indexes)"
      have "\<forall>j. k \<le> j \<and> j < Other_loop rafts (k + 1) indexes \<longrightarrow> j \<in> set indexes"
      proof (intro allI impI)
        fix j assume "k \<le> j \<and> j < Other_loop rafts (k + 1) indexes"
        then have "j = k \<or> (k + 1 \<le> j \<and> j < Other_loop rafts (k + 1) indexes)" by auto
        then show "j \<in> set indexes" using True b by blast
      qed
      then show ?thesis using b step by simp
    qed
  qed
qed

lemma Other_cases:
  "(Other rafts indexes = - 1 \<and> (\<forall>j. 0 \<le> j \<and> j < int (length rafts) \<longrightarrow> j \<in> set indexes))
   \<or> (0 \<le> Other rafts indexes \<and> Other rafts indexes < int (length rafts)
      \<and> Other rafts indexes \<notin> set indexes
      \<and> (\<forall>j. 0 \<le> j \<and> j < Other rafts indexes \<longrightarrow> j \<in> set indexes))"
  using Other_loop_cases [of rafts 0 indexes] by (simp add: Other_def)

text \<open>
  Claim C8. \<open>Other\<close> never returns an excluded position: its result is the sentinel
  \<open>-1\<close> or a position of the slice that is not among \<open>indexes\<close>. It returns the
  sentinel exactly when every position of the slice is excluded. For a slice of at least
  two nodes and a single excluded index \<open>i\<close> the result is a position of the slice, and
  it is not \<open>i\<close>.
\<close>

theorem Other_never_excluded:
  "(Other rafts indexes = - 1
      \<or> (0 \<le> Other rafts indexes \<and> Other rafts indexes < int (length rafts)
          \<and> Other rafts indexes \<notin> set indexes))
   \<and> (Other rafts indexes = - 1
        \<longleftrightarrow> (\<forall>j. 0 \<le> j \<and> j < int (length rafts) \<longrightarrow> j \<in> set indexes))
   \<and> (2 \<le> length rafts \<longrightarrow>
        0 \<le> Other rafts [i] \<and> Other rafts [i] < int (length rafts) \<and> Other rafts [i] \<noteq> i)"
proof (intro conjI impI)
  show "Other rafts indexes = - 1
      \<or> (0 \<le> Other rafts indexes \<and> Other rafts indexes < int (length rafts)
          \<and> Other rafts indexes \<notin> set indexes)"
    using Other_cases [of rafts indexes] by blast
next
  show "Other rafts indexes = - 1
        \<longleftrightarrow> (\<forall>j. 0 \<le> j \<and> j < int (length rafts) \<longrightarrow> j \<in> set indexes)"
  proof
    assume m: "Other rafts indexes = - 1"
    from Other_cases [of rafts indexes] show
      "\<forall>j. 0 \<le> j \<and> j < int (length rafts) \<longrightarrow> j \<in> set indexes"
      using m by auto
  next
    assume all: "\<forall>j. 0 \<le> j \<and> j < int (length rafts) \<longrightarrow> j \<in> set indexes"
    from Other_cases [of rafts indexes] show "Other rafts indexes = - 1"
      using all by blast
  qed
next
  assume two: "2 \<le> length rafts"
  then have len: "(1::int) < int (length rafts)" by linarith
  have free: "\<exists>j. 0 \<le> j \<and> j < int (length rafts) \<and> j \<notin> set [i]"
  proof (cases "i = 0")
    case True
    then have "0 \<le> (1::int) \<and> 1 < int (length rafts) \<and> (1::int) \<notin> set [i]"
      using len by simp
    then show ?thesis by blast
  next
    case False
    have "(0::int) < int (length rafts)" using len by linarith
    then have "0 \<le> (0::int) \<and> 0 < int (length rafts) \<and> (0::int) \<notin> set [i]"
      using False by simp
    then show ?thesis by blast
  qed
  from Other_cases [of rafts "[i]"] free
  have "0 \<le> Other rafts [i] \<and> Other rafts [i] < int (length rafts) \<and> Other rafts [i] \<notin> set [i]"
    by blast
  then show "0 \<le> Other rafts [i]" and "Other rafts [i] < int (length rafts)"
    and "Other rafts [i] \<noteq> i" by simp_all
qed

theorem Other_never_excluded_witness:
  "(Other [''a'', ''b'', ''c''] [0, 2] = - 1
      \<or> (0 \<le> Other [''a'', ''b'', ''c''] [0, 2] \<and> Other [''a'', ''b'', ''c''] [0, 2] < 3
          \<and> Other [''a'', ''b'', ''c''] [0, 2] \<notin> {0, 2}))
   \<and> Other [''a'', ''b'', ''c''] [0, 2] = 1
   \<and> Other [''a'', ''b'', ''c''] [0] = 1
   \<and> Other [''a'', ''b''] [1, 0] = - 1"
proof -
  have "Other [''a'', ''b'', ''c''] [0, 2] = 1" by (simp add: Other_def)
  moreover have "Other [''a'', ''b'', ''c''] [0] = 1" by (simp add: Other_def)
  moreover have "Other [''a'', ''b''] [1, 0] = - 1" by (simp add: Other_def)
  ultimately show ?thesis
    using Other_never_excluded [of "[''a'', ''b'', ''c'']" "[0, 2]" 0] by simp
qed

text \<open>
  Claim C10. \<open>Other\<close> is a total function of the slice and the excluded indexes: when
  some position of the slice is not excluded it returns the smallest such position, and
  otherwise \<open>-1\<close>; on the empty slice it returns \<open>-1\<close> whatever is excluded.
\<close>

theorem Other_smallest_free:
  "(if \<exists>j. 0 \<le> j \<and> j < int (length rafts) \<and> j \<notin> set indexes
    then 0 \<le> Other rafts indexes \<and> Other rafts indexes < int (length rafts)
         \<and> Other rafts indexes \<notin> set indexes
         \<and> (\<forall>j. 0 \<le> j \<and> j < int (length rafts) \<and> j \<notin> set indexes \<longrightarrow> Other rafts indexes \<le> j)
    else Other rafts indexes = - 1)
   \<and> Other ([] :: 'r list) indexes = - 1"
proof (intro conjI)
  show "Other ([] :: 'r list) indexes = - 1" by (simp add: Other_def)
next
  show "if \<exists>j. 0 \<le> j \<and> j < int (length rafts) \<and> j \<notin> set indexes
    then 0 \<le> Other rafts indexes \<and> Other rafts indexes < int (length rafts)
         \<and> Other rafts indexes \<notin> set indexes
         \<and> (\<forall>j. 0 \<le> j \<and> j < int (length rafts) \<and> j \<notin> set indexes \<longrightarrow> Other rafts indexes \<le> j)
    else Other rafts indexes = - 1"
  proof (cases "\<exists>j. 0 \<le> j \<and> j < int (length rafts) \<and> j \<notin> set indexes")
    case False
    then have "Other rafts indexes = - 1" using Other_cases [of rafts indexes] by blast
    then show ?thesis using False by simp
  next
    case True
    with Other_cases [of rafts indexes]
    have found: "0 \<le> Other rafts indexes \<and> Other rafts indexes < int (length rafts)
      \<and> Other rafts indexes \<notin> set indexes
      \<and> (\<forall>j. 0 \<le> j \<and> j < Other rafts indexes \<longrightarrow> j \<in> set indexes)"
      by blast
    have least: "\<forall>j. 0 \<le> j \<and> j < int (length rafts) \<and> j \<notin> set indexes \<longrightarrow> Other rafts indexes \<le> j"
    proof (intro allI impI)
      fix j assume j: "0 \<le> j \<and> j < int (length rafts) \<and> j \<notin> set indexes"
      show "Other rafts indexes \<le> j"
      proof (rule ccontr)
        assume "\<not> Other rafts indexes \<le> j"
        then have "0 \<le> j \<and> j < Other rafts indexes" using j by simp
        then have "j \<in> set indexes" using found by blast
        then show False using j by simp
      qed
    qed
    show ?thesis using True found least by simp
  qed
qed

theorem Other_smallest_free_witness:
  "Other [''x'', ''y'', ''z'', ''w''] [1, 0, 3] = 2 \<and> Other ([] :: string list) [0, 5] = - 1"
proof -
  have free: "\<exists>j. 0 \<le> j \<and> j < int (length [''x'', ''y'', ''z'', ''w'']) \<and> j \<notin> set [1, 0, 3]"
    by (rule exI [of _ 2]) simp
  have "Other [''x'', ''y'', ''z'', ''w''] [1, 0, 3] = 2" by (simp add: Other_def)
  then show ?thesis
    using free Other_smallest_free [of "[''x'', ''y'', ''z'', ''w'']" "[1, 0, 3]"]
    by (simp add: Other_def)
qed

section \<open>Properties of the leadership aggregator\<close>











text \<open>
  Claim C1. The claim: a value received from the channel of node \<open>n\<close> is forwarded as
  one event with \<open>On = n\<close> and the value unchanged, and the closing of a channel
  forwards nothing. The code sends an event after every select, also when \<open>ok\<close> is
  false, and \<open>On\<close> is the position of the case in the current slice, which is no longer
  the node once an earlier case has been cut out. With three nodes, node 0 closing its
  channel and node 2 then signalling \<open>True\<close>, and a test that receives twice: the closing
  is forwarded as \<open>{On: 0, Acquired: false}\<close>, and the value of node 2 arrives as
  \<open>{On: 1, Acquired: true}\<close>, while the slice of cases still holds the channels of nodes
  1 and 2.
\<close>

theorem watch_forwards_close_and_shifts_index:
  "ch (watch [0, 1] 2
        [\<lparr>pending = [], closes = True\<rparr>, \<lparr>pending = [], closes = False\<rparr>,
         \<lparr>pending = [True], closes = False\<rparr>])
     = [\<lparr>On = 0, Acquired = False\<rparr>, \<lparr>On = 1, Acquired = True\<rparr>]
   \<and> cases (watch [0, 1] 2
        [\<lparr>pending = [], closes = True\<rparr>, \<lparr>pending = [], closes = False\<rparr>,
         \<lparr>pending = [True], closes = False\<rparr>]) = [1, 2]"
  by (simp add: watch_def reflect_Select_def recv_def upt_rec eval_nat_numeral)

section \<open>Properties of the blocking queries\<close>

lemma waits_nonneg: "\<forall>a\<in>set skipped. 0 \<le> wait a \<Longrightarrow> 0 \<le> sum_list (map wait skipped)"
  by (induction skipped) auto

lemma nextMatching_discards:
  "\<forall>a\<in>set skipped. Acquired (info a) \<noteq> acquired \<and> 0 \<le> wait a \<Longrightarrow>
   sum_list (map wait skipped) < timeout \<Longrightarrow>
   nextMatching cf n timeout acquired (skipped @ rest)
     = nextMatching cf n (timeout - sum_list (map wait skipped)) acquired rest"
proof (induction skipped arbitrary: timeout)
  case Nil
  show ?case by simp
next
  case (Cons a skipped)
  have nn: "0 \<le> sum_list (map wait skipped)" using Cons.prems(1) by (intro waits_nonneg) simp
  have wa: "0 \<le> wait a" and na: "Acquired (info a) \<noteq> acquired" using Cons.prems(1) by simp_all
  have lt: "wait a < timeout" using Cons.prems(2) nn by simp
  then have got: "next_info timeout (Some a) = Inr (info a)"
    using wa by (simp add: next_info_def)
  have rest: "sum_list (map wait skipped) < timeout - wait a" using Cons.prems(2) by simp
  have "nextMatching cf n (timeout - wait a) acquired (skipped @ rest)
      = nextMatching cf n (timeout - wait a - sum_list (map wait skipped)) acquired rest"
    using Cons.prems(1) rest by (intro Cons.IH) simp_all
  then show ?case using got na by (simp add: algebra_simps)
qed

lemma nextMatching_late:
  "\<forall>a\<in>set skipped. Acquired (info a) \<noteq> acquired \<and> 0 \<le> wait a \<Longrightarrow>
   0 \<le> wait m \<Longrightarrow> 0 \<le> timeout \<Longrightarrow>
   timeout < sum_list (map wait skipped) + wait m \<Longrightarrow>
   nextMatching cf n timeout acquired (skipped @ m # rest) = Inl NoNotification"
proof (induction skipped arbitrary: timeout)
  case Nil
  then have "next_info timeout (Some m) = Inl NoNotification"
    by (simp add: next_info_def)
  then show ?case by simp
next
  case (Cons a skipped)
  show ?case
  proof (cases "next_info timeout (Some a)")
    case (Inl e)
    then have "e = NoNotification" by (simp add: next_info_def split: if_splits)
    then show ?thesis using Inl by simp
  next
    case (Inr i)
    then have i: "i = info a" and le: "wait a \<le> timeout"
      using Cons.prems(3) by (auto simp: next_info_def split: if_splits)
    have na: "Acquired (info a) \<noteq> acquired" using Cons.prems(1) by simp
    have "nextMatching cf n (timeout - wait a) acquired (skipped @ m # rest) = Inl NoNotification"
      using Cons.prems le by (intro Cons.IH) simp_all
    then show ?thesis using Inr i na by simp
  qed
qed

lemma nextMatching_none:
  "\<forall>a\<in>set skipped. Acquired (info a) \<noteq> acquired \<Longrightarrow>
   nextMatching cf n timeout acquired skipped = Inl NoNotification"
proof (induction skipped arbitrary: timeout)
  case Nil
  show ?case by (simp add: next_info_def)
next
  case (Cons a skipped)
  show ?case
  proof (cases "next_info timeout (Some a)")
    case (Inl e)
    then have "e = NoNotification" by (simp add: next_info_def split: if_splits)
    then show ?thesis using Inl by simp
  next
    case (Inr i)
    then have i: "i = info a" by (auto simp: next_info_def split: if_splits)
    have "nextMatching cf n (timeout - wait a) acquired skipped = Inl NoNotification"
      using Cons.prems by (intro Cons.IH) simp
    then show ?thesis using Inr i Cons.prems by simp
  qed
qed

text \<open>
  Claim C2, as the code has it. \<open>NextAcquired\<close> and \<open>NextLost\<close> are \<open>nextMatching\<close>
  with the polarity \<open>True\<close> and \<open>False\<close>. Let the output channel offer the events
  \<open>skipped\<close>, all of the opposite polarity, then the first matching event \<open>m\<close>, each
  after a wait that is not negative, and let the timeout not be negative. The events of
  \<open>skipped\<close> are discarded, and each takes its wait off the budget of the waits that
  follow, which is never set back: while their waits sum up to less than the timeout,
  the query goes on with the timeout less that sum. If \<open>m\<close> is offered before the
  timeout has passed since the call, the query goes on to the confirmation of the state
  of the node of \<open>m\<close>, which is handed the timeout less the waits of the discarded
  events (the wait for \<open>m\<close> itself is not taken off): the node index of \<open>m\<close> is
  returned if the confirmation succeeds, and the test fails fatally if it does not. An
  index that is no position of the slice of nodes is a run-time failure. If \<open>m\<close> is
  offered only after the timeout has passed since the call, or no matching event is
  offered at all, the test fails fatally.
\<close>

theorem nextMatching_first_match_in_budget:
  assumes "\<forall>a\<in>set skipped. Acquired (info a) \<noteq> acquired \<and> 0 \<le> wait a"
    and "Acquired (info m) = acquired" and "0 \<le> wait m" and "0 \<le> timeout"
  shows "(sum_list (map wait skipped) < timeout \<longrightarrow>
            nextMatching cf n timeout acquired (skipped @ rest)
              = nextMatching cf n (timeout - sum_list (map wait skipped)) acquired rest)
       \<and> (sum_list (map wait skipped) + wait m < timeout \<longrightarrow>
            nextMatching cf n timeout acquired (skipped @ m # rest)
              = (if On (info m) < 0 \<or> int n \<le> On (info m) then Inl IndexOutOfRange
                 else if cf acquired (On (info m)) (timeout - sum_list (map wait skipped))
                 then Inr (On (info m))
                 else Inl NotConfirmed))
       \<and> (timeout < sum_list (map wait skipped) + wait m \<longrightarrow>
            nextMatching cf n timeout acquired (skipped @ m # rest) = Inl NoNotification)
       \<and> nextMatching cf n timeout acquired skipped = Inl NoNotification
       \<and> NextAcquired cf n timeout offered = nextMatching cf n timeout True offered
       \<and> NextLost cf n timeout offered = nextMatching cf n timeout False offered"
proof (intro conjI impI)
  assume "sum_list (map wait skipped) < timeout"
  then show "nextMatching cf n timeout acquired (skipped @ rest)
      = nextMatching cf n (timeout - sum_list (map wait skipped)) acquired rest"
    using assms(1) by (intro nextMatching_discards)
next
  assume lt: "sum_list (map wait skipped) + wait m < timeout"
  then have pre_lt: "sum_list (map wait skipped) < timeout" using assms(3) by simp
  have "nextMatching cf n timeout acquired (skipped @ m # rest)
      = nextMatching cf n (timeout - sum_list (map wait skipped)) acquired (m # rest)"
    using assms(1) pre_lt by (intro nextMatching_discards)
  moreover have "next_info (timeout - sum_list (map wait skipped)) (Some m) = Inr (info m)"
    using lt assms(3) by (simp add: next_info_def)
  ultimately show "nextMatching cf n timeout acquired (skipped @ m # rest)
      = (if On (info m) < 0 \<or> int n \<le> On (info m) then Inl IndexOutOfRange
         else if cf acquired (On (info m)) (timeout - sum_list (map wait skipped))
         then Inr (On (info m))
         else Inl NotConfirmed)"
    using assms(2) by simp
next
  assume "timeout < sum_list (map wait skipped) + wait m"
  then show "nextMatching cf n timeout acquired (skipped @ m # rest) = Inl NoNotification"
    using assms by (intro nextMatching_late)
next
  show "nextMatching cf n timeout acquired skipped = Inl NoNotification"
    using assms(1) by (intro nextMatching_none) simp
next
  show "NextAcquired cf n timeout offered = nextMatching cf n timeout True offered"
    by (simp add: NextAcquired_def)
next
  show "NextLost cf n timeout offered = nextMatching cf n timeout False offered"
    by (simp add: NextLost_def)
qed


theorem nextMatching_first_match_in_budget_witness:
  "nextMatching settled_at_once 3 10 True
      [\<lparr>wait = 3, info = \<lparr>On = 1, Acquired = False\<rparr>, wins_tie = False\<rparr>,
       \<lparr>wait = 4, info = \<lparr>On = 2, Acquired = True\<rparr>, wins_tie = False\<rparr>,
       \<lparr>wait = 1, info = \<lparr>On = 0, Acquired = True\<rparr>, wins_tie = False\<rparr>] = Inr 2
   \<and> nextMatching settled_at_once 3 6 True
      [\<lparr>wait = 3, info = \<lparr>On = 1, Acquired = False\<rparr>, wins_tie = False\<rparr>,
       \<lparr>wait = 4, info = \<lparr>On = 2, Acquired = True\<rparr>, wins_tie = False\<rparr>,
       \<lparr>wait = 1, info = \<lparr>On = 0, Acquired = True\<rparr>, wins_tie = False\<rparr>] = Inl NoNotification
   \<and> nextMatching settled_at_once 3 10 True
      [\<lparr>wait = 3, info = \<lparr>On = 1, Acquired = False\<rparr>, wins_tie = False\<rparr>] = Inl NoNotification"
proof -
  let ?a = "\<lparr>wait = 3, info = \<lparr>On = 1, Acquired = False\<rparr>, wins_tie = False\<rparr>"
  let ?m = "\<lparr>wait = 4, info = \<lparr>On = 2, Acquired = True\<rparr>, wins_tie = False\<rparr>"
  let ?r = "\<lparr>wait = 1, info = \<lparr>On = 0, Acquired = True\<rparr>, wins_tie = False\<rparr>"
  have h1: "\<forall>a\<in>set [?a]. Acquired (info a) \<noteq> True \<and> 0 \<le> wait a" by simp
  have h2: "Acquired (info ?m) = True" and h3: "0 \<le> wait ?m" by simp_all
  have early: "sum_list (map wait [?a]) + wait ?m < 10" by simp
  have late: "6 < sum_list (map wait [?a]) + wait ?m" by simp
  from nextMatching_first_match_in_budget
         [of "[?a]" True ?m 10 settled_at_once 3 "[?r]", OF h1 h2 h3] early
  have c1: "nextMatching settled_at_once 3 10 True ([?a] @ ?m # [?r]) = Inr 2"
    by (simp add: settled_at_once_def)
  from nextMatching_first_match_in_budget
         [of "[?a]" True ?m 6 settled_at_once 3 "[?r]", OF h1 h2 h3] late
  have c2: "nextMatching settled_at_once 3 6 True ([?a] @ ?m # [?r]) = Inl NoNotification"
    by simp
  from nextMatching_first_match_in_budget
         [of "[?a]" True ?m 10 settled_at_once 3 "[?r]", OF h1 h2 h3]
  have c3: "nextMatching settled_at_once 3 10 True [?a] = Inl NoNotification"
    by simp
  from c1 c2 c3 show ?thesis by simp
qed

text \<open>
  Claim C2 as the spec words it has the call return the node index whenever a matching
  event arrives within the timeout, and has the whole call bounded by the timeout
  counted from the call. With a timeout of ten: a matching event of node 2 offered after
  four is not answered with its index when the node's state is never confirmed, the
  test fails instead; and after a matching event offered after nine, the confirmation
  is still handed the timeout of ten, not the one that is left, so that a confirmation
  that takes ten succeeds and the call returns nineteen after it was made.
\<close>

theorem nextMatching_timely_match_not_returned:
  "NextAcquired never_settles 3 10
      [\<lparr>wait = 4, info = \<lparr>On = 2, Acquired = True\<rparr>, wins_tie = False\<rparr>] = Inl NotConfirmed
   \<and> NextAcquired settles_in_10 3 10
      [\<lparr>wait = 9, info = \<lparr>On = 2, Acquired = True\<rparr>, wins_tie = False\<rparr>] = Inr 2
   \<and> \<not> settles_in_10 True 2 (10 - 9)"
  by (simp add: NextAcquired_def next_info_def never_settles_def settles_in_10_def)

section \<open>Properties of the bootstrap\<close>

lemma connect_peers_ok:
  "WithPeers (Transport node1) \<or> \<not> (\<exists>j\<in>set js. j \<noteq> i \<and> bootstraps nodes j) \<Longrightarrow>
   connect_peers nodes i node1 js calls = Inr (calls @ peer_calls nodes js i)"
proof (induction js arbitrary: calls)
  case Nil
  show ?case by (simp add: peer_calls_def)
next
  case (Cons j js)
  have rest: "WithPeers (Transport node1) \<or> \<not> (\<exists>j\<in>set js. j \<noteq> i \<and> bootstraps nodes j)"
    using Cons.prems by auto
  show ?case
  proof (cases "j \<noteq> i \<and> bootstraps nodes j")
    case False
    then have "connect_peers nodes i node1 (j # js) calls = connect_peers nodes i node1 js calls"
      by (auto simp: bootstraps_def split: option.splits)
    moreover have "peer_calls nodes (j # js) i = peer_calls nodes js i"
      using False by (simp add: peer_calls_def)
    ultimately show ?thesis using Cons.IH [OF rest] by simp
  next
    case True
    then have wp: "WithPeers (Transport node1)" using Cons.prems by auto
    have "connect_peers nodes i node1 (j # js) calls
        = connect_peers nodes i node1 js (calls @ [Connect i j])"
      using True wp by (auto simp: bootstraps_def split: option.splits)
    moreover have "peer_calls nodes (j # js) i = Connect i j # peer_calls nodes js i"
      using True by (simp add: peer_calls_def)
    ultimately show ?thesis using Cons.IH [OF rest] by simp
  qed
qed

lemma connect_peers_fatal:
  "\<not> WithPeers (Transport node1) \<Longrightarrow> \<exists>j\<in>set js. j \<noteq> i \<and> bootstraps nodes j \<Longrightarrow>
   connect_peers nodes i node1 js calls = Inl (NoWithPeers i)"
proof (induction js arbitrary: calls)
  case Nil
  then show ?case by simp
next
  case (Cons j js)
  show ?case
  proof (cases "j \<noteq> i \<and> bootstraps nodes j")
    case True
    then show ?thesis using Cons.prems(1) by (auto simp: bootstraps_def split: option.splits)
  next
    case False
    then have "\<exists>j\<in>set js. j \<noteq> i \<and> bootstraps nodes j" using Cons.prems(2) by auto
    then have "connect_peers nodes i node1 js calls = Inl (NoWithPeers i)"
      using Cons.prems(1) by (intro Cons.IH)
    moreover have "connect_peers nodes i node1 (j # js) calls = connect_peers nodes i node1 js calls"
      using False by (auto simp: bootstraps_def split: option.splits)
    ultimately show ?thesis by simp
  qed
qed

lemma collect_servers_ok:
  "\<forall>i\<in>set keys. \<not> lacks_peers nodes inner i \<Longrightarrow>
   collect_servers nodes inner keys servers calls
     = Inr (servers @ membership nodes keys,
            calls @ concat (map (\<lambda>i. peer_calls nodes (inner i) i) (filter (bootstraps nodes) keys)))"
proof (induction keys arbitrary: servers calls)
  case Nil
  show ?case by (simp add: membership_def)
next
  case (Cons i keys)
  have rest: "\<forall>i\<in>set keys. \<not> lacks_peers nodes inner i" using Cons.prems by simp
  show ?case
  proof (cases "bootstraps nodes i")
    case False
    then have "collect_servers nodes inner (i # keys) servers calls
        = collect_servers nodes inner keys servers calls"
      by (auto simp: bootstraps_def split: option.splits)
    then show ?thesis using False Cons.IH [OF rest] by (simp add: membership_def)
  next
    case True
    then obtain node1 where n1: "nodes i = Some node1" and b1: "Bootstrap node1"
      by (auto simp: bootstraps_def split: option.splits)
    have "\<not> lacks_peers nodes inner i" using Cons.prems by simp
    then have "WithPeers (Transport node1) \<or> \<not> (\<exists>j\<in>set (inner i). j \<noteq> i \<and> bootstraps nodes j)"
      using n1 b1 by (auto simp: lacks_peers_def)
    then have cp: "connect_peers nodes i node1 (inner i) calls
        = Inr (calls @ peer_calls nodes (inner i) i)"
      by (rule connect_peers_ok)
    have "collect_servers nodes inner (i # keys) servers calls
        = collect_servers nodes inner keys (servers @ [(Itoa i, LocalAddr (Transport node1))])
            (calls @ peer_calls nodes (inner i) i)"
      using n1 b1 cp by simp
    moreover have "membership nodes (i # keys)
        = (Itoa i, LocalAddr (Transport node1)) # membership nodes keys"
      using True n1 by (simp add: membership_def address_def)
    ultimately show ?thesis using True Cons.IH [OF rest] by simp
  qed
qed

lemma collect_servers_fatal:
  "\<exists>i\<in>set keys. lacks_peers nodes inner i \<Longrightarrow>
   \<exists>k. collect_servers nodes inner keys servers calls = Inl (NoWithPeers k)"
proof (induction keys arbitrary: servers calls)
  case Nil
  then show ?case by simp
next
  case (Cons i keys)
  show ?case
  proof (cases "lacks_peers nodes inner i")
    case True
    then obtain node1 where n1: "nodes i = Some node1" and b1: "Bootstrap node1"
      and nw: "\<not> WithPeers (Transport node1)"
      and ex: "\<exists>j\<in>set (inner i). j \<noteq> i \<and> bootstraps nodes j"
      by (auto simp: lacks_peers_def split: option.splits)
    have "connect_peers nodes i node1 (inner i) calls = Inl (NoWithPeers i)"
      using nw ex by (rule connect_peers_fatal)
    then show ?thesis using n1 b1 by simp
  next
    case False
    then have later: "\<exists>i\<in>set keys. lacks_peers nodes inner i" using Cons.prems by auto
    show ?thesis
    proof (cases "bootstraps nodes i")
      case no: False
      then have "collect_servers nodes inner (i # keys) servers calls
          = collect_servers nodes inner keys servers calls"
        by (auto simp: bootstraps_def split: option.splits)
      then show ?thesis using Cons.IH [OF later] by simp
    next
      case yes: True
      then obtain node1 where n1: "nodes i = Some node1" and b1: "Bootstrap node1"
        by (auto simp: bootstraps_def split: option.splits)
      have "WithPeers (Transport node1) \<or> \<not> (\<exists>j\<in>set (inner i). j \<noteq> i \<and> bootstraps nodes j)"
        using False n1 b1 by (auto simp: lacks_peers_def)
      then have cp: "connect_peers nodes i node1 (inner i) calls
          = Inr (calls @ peer_calls nodes (inner i) i)"
        by (rule connect_peers_ok)
      have "collect_servers nodes inner (i # keys) servers calls
          = collect_servers nodes inner keys (servers @ [(Itoa i, LocalAddr (Transport node1))])
              (calls @ peer_calls nodes (inner i) i)"
        using n1 b1 cp by simp
      then show ?thesis using Cons.IH [OF later] by simp
    qed
  qed
qed

lemma bootstrap_all_ok:
  "\<forall>i\<in>set keys. bootstraps nodes i \<longrightarrow> \<not> fails i conf \<Longrightarrow>
   bootstrap_all fails nodes conf keys calls
     = Inr (calls @ map (\<lambda>i. BootstrapCall i conf) (filter (bootstraps nodes) keys))"
proof (induction keys arbitrary: calls)
  case Nil
  show ?case by simp
next
  case (Cons i keys)
  have rest: "\<forall>i\<in>set keys. bootstraps nodes i \<longrightarrow> \<not> fails i conf" using Cons.prems by simp
  show ?case
  proof (cases "bootstraps nodes i")
    case False
    then have "bootstrap_all fails nodes conf (i # keys) calls
        = bootstrap_all fails nodes conf keys calls"
      by (auto simp: bootstraps_def split: option.splits)
    then show ?thesis using False Cons.IH [OF rest] by simp
  next
    case True
    then have "\<not> fails i conf" using Cons.prems by simp
    then have "bootstrap_all fails nodes conf (i # keys) calls
        = bootstrap_all fails nodes conf keys (calls @ [BootstrapCall i conf])"
      using True by (auto simp: bootstraps_def split: option.splits)
    then show ?thesis using True Cons.IH [OF rest] by simp
  qed
qed

lemma bootstrap_all_fatal:
  "\<exists>i\<in>set keys. bootstraps nodes i \<and> fails i conf \<Longrightarrow>
   bootstrap_all fails nodes conf keys calls = Inl BootstrapFailed"
proof (induction keys arbitrary: calls)
  case Nil
  then show ?case by simp
next
  case (Cons i keys)
  show ?case
  proof (cases "bootstraps nodes i")
    case False
    then have later: "\<exists>i\<in>set keys. bootstraps nodes i \<and> fails i conf" using Cons.prems by auto
    have "bootstrap_all fails nodes conf (i # keys) calls
        = bootstrap_all fails nodes conf keys calls"
      using False by (auto simp: bootstraps_def split: option.splits)
    then show ?thesis using Cons.IH [OF later] by simp
  next
    case True
    show ?thesis
    proof (cases "fails i conf")
      case bad: True
      then show ?thesis using True by (auto simp: bootstraps_def split: option.splits)
    next
      case good: False
      then have later: "\<exists>i\<in>set keys. bootstraps nodes i \<and> fails i conf" using Cons.prems by auto
      have "bootstrap_all fails nodes conf (i # keys) calls
          = bootstrap_all fails nodes conf keys (calls @ [BootstrapCall i conf])"
        using True good by (auto simp: bootstraps_def split: option.splits)
      then show ?thesis using Cons.IH [OF later] by simp
    qed
  qed
qed

text \<open>The three ways in which \<open>bootstrapCluster\<close> ends.\<close>

lemma bootstrapCluster_no_peers:
  "\<exists>i\<in>set (range_outer ord). lacks_peers nodes (range_inner ord) i \<Longrightarrow>
   \<exists>k. bootstrapCluster ord fails nodes = Inl (NoWithPeers k)"
proof -
  assume "\<exists>i\<in>set (range_outer ord). lacks_peers nodes (range_inner ord) i"
  then obtain k where
    "collect_servers nodes (range_inner ord) (range_outer ord) [] [] = Inl (NoWithPeers k)"
    using collect_servers_fatal by blast
  then have "bootstrapCluster ord fails nodes = Inl (NoWithPeers k)"
    by (simp add: bootstrapCluster_def)
  then show ?thesis by blast
qed

lemma bootstrapCluster_failed:
  "\<forall>i\<in>set (range_outer ord). \<not> lacks_peers nodes (range_inner ord) i \<Longrightarrow>
   \<exists>i\<in>set (range_boot ord). bootstraps nodes i \<and> fails i (membership nodes (range_outer ord)) \<Longrightarrow>
   bootstrapCluster ord fails nodes = Inl BootstrapFailed"
  by (simp add: bootstrapCluster_def collect_servers_ok bootstrap_all_fatal)

lemma bootstrapCluster_done:
  "\<forall>i\<in>set (range_outer ord). \<not> lacks_peers nodes (range_inner ord) i \<Longrightarrow>
   \<forall>i\<in>set (range_boot ord). bootstraps nodes i \<longrightarrow> \<not> fails i (membership nodes (range_outer ord)) \<Longrightarrow>
   bootstrapCluster ord fails nodes
     = Inr (concat (map (\<lambda>i. peer_calls nodes (range_inner ord i) i)
                      (filter (bootstraps nodes) (range_outer ord)))
            @ map (\<lambda>i. BootstrapCall i (membership nodes (range_outer ord)))
                (filter (bootstraps nodes) (range_boot ord)))"
  by (simp add: bootstrapCluster_def collect_servers_ok bootstrap_all_ok)

lemma bootstrapCluster_Inr:
  assumes "bootstrapCluster ord fails nodes = Inr calls"
  shows "(\<forall>i\<in>set (range_outer ord). \<not> lacks_peers nodes (range_inner ord) i)
       \<and> (\<forall>i\<in>set (range_boot ord). bootstraps nodes i \<longrightarrow> \<not> fails i (membership nodes (range_outer ord)))
       \<and> calls = concat (map (\<lambda>i. peer_calls nodes (range_inner ord i) i)
                      (filter (bootstraps nodes) (range_outer ord)))
            @ map (\<lambda>i. BootstrapCall i (membership nodes (range_outer ord)))
                (filter (bootstraps nodes) (range_boot ord))"
proof -
  have a: "\<forall>i\<in>set (range_outer ord). \<not> lacks_peers nodes (range_inner ord) i"
  proof (rule ccontr)
    assume "\<not> (\<forall>i\<in>set (range_outer ord). \<not> lacks_peers nodes (range_inner ord) i)"
    then have "\<exists>i\<in>set (range_outer ord). lacks_peers nodes (range_inner ord) i" by blast
    then obtain k where "bootstrapCluster ord fails nodes = Inl (NoWithPeers k)"
      using bootstrapCluster_no_peers by blast
    then show False using assms by simp
  qed
  have b: "\<forall>i\<in>set (range_boot ord). bootstraps nodes i \<longrightarrow> \<not> fails i (membership nodes (range_outer ord))"
  proof (rule ccontr)
    assume "\<not> (\<forall>i\<in>set (range_boot ord). bootstraps nodes i \<longrightarrow> \<not> fails i (membership nodes (range_outer ord)))"
    then have "\<exists>i\<in>set (range_boot ord). bootstraps nodes i \<and> fails i (membership nodes (range_outer ord))"
      by blast
    then have "bootstrapCluster ord fails nodes = Inl BootstrapFailed"
      using a by (intro bootstrapCluster_failed)
    then show False using assms by simp
  qed
  from bootstrapCluster_done [of ord nodes fails, OF a b] assms show ?thesis using a b by simp
qed

lemma bootstraps_dom: "bootstraps nodes i \<Longrightarrow> i \<in> dom nodes"
  by (auto simp: bootstraps_def split: option.splits)

lemma set_membership:
  "set keys = dom nodes \<Longrightarrow>
   set (membership nodes keys)
     = {(Itoa i, LocalAddr (Transport nd)) | i nd. nodes i = Some nd \<and> Bootstrap nd}"
proof -
  assume keys: "set keys = dom nodes"
  have "set (membership nodes keys)
      = {(Itoa i, address nodes i) | i. i \<in> dom nodes \<and> bootstraps nodes i}"
    using keys by (auto simp: membership_def)
  also have "\<dots> = {(Itoa i, LocalAddr (Transport nd)) | i nd. nodes i = Some nd \<and> Bootstrap nd}"
    by (auto simp: bootstraps_def address_def split: option.splits)
  finally show ?thesis .
qed

lemma set_peer_calls:
  "set (concat (map (\<lambda>i. peer_calls nodes (inner i) i) (filter (bootstraps nodes) keys)))
     = {Connect i j | i j. i \<in> set keys \<and> bootstraps nodes i \<and> j \<in> set (inner i)
                          \<and> j \<noteq> i \<and> bootstraps nodes j}"
  by (auto simp: peer_calls_def)

lemma count_bootstrap_calls:
  "distinct keys \<Longrightarrow>
   count_list (map (\<lambda>i. BootstrapCall i conf) (filter (bootstraps nodes) keys)) (BootstrapCall i conf)
     = (if i \<in> set keys \<and> bootstraps nodes i then 1 else 0)"
proof (induction keys)
  case Nil
  show ?case by simp
next
  case (Cons k keys)
  then show ?case by auto
qed

text \<open>
  Claim C3. Let the loops range over exactly the keys of the map of nodes, the bootstrap
  loop over each key once. If \<open>bootstrapCluster\<close> returns, then the membership it has
  computed holds the id and address of exactly the nodes whose bootstrap flag is set;
  the engine's bootstrap has been called exactly once for every bootstrapping node and
  never for another node; every such call carried that same membership, and none of
  them failed. If the bootstrap call fails for some bootstrapping node, then
  \<open>bootstrapCluster\<close> does not return: the construction ends in a fatal failure.
\<close>

theorem bootstrapCluster_all_or_nothing:
  assumes "set (range_outer ord) = dom nodes" and "set (range_boot ord) = dom nodes"
    and "distinct (range_boot ord)"
  shows "(bootstrapCluster ord fails nodes = Inr calls \<longrightarrow>
            set (membership nodes (range_outer ord))
              = {(Itoa i, LocalAddr (Transport nd)) | i nd. nodes i = Some nd \<and> Bootstrap nd}
          \<and> (\<forall>i. count_list calls (BootstrapCall i (membership nodes (range_outer ord)))
                  = (if bootstraps nodes i then 1 else 0))
          \<and> (\<forall>i servers. BootstrapCall i servers \<in> set calls \<longrightarrow>
                  servers = membership nodes (range_outer ord) \<and> bootstraps nodes i
                  \<and> \<not> fails i servers))
       \<and> ((\<exists>i. bootstraps nodes i \<and> fails i (membership nodes (range_outer ord))) \<longrightarrow>
            (\<exists>e. bootstrapCluster ord fails nodes = Inl e))"
proof (intro conjI impI)
  assume ok: "bootstrapCluster ord fails nodes = Inr calls"
  let ?conf = "membership nodes (range_outer ord)"
  let ?connects = "concat (map (\<lambda>i. peer_calls nodes (range_inner ord i) i)
                      (filter (bootstraps nodes) (range_outer ord)))"
  let ?boots = "map (\<lambda>i. BootstrapCall i ?conf) (filter (bootstraps nodes) (range_boot ord))"
  from bootstrapCluster_Inr [OF ok]
  have good: "\<forall>i\<in>set (range_boot ord). bootstraps nodes i \<longrightarrow> \<not> fails i ?conf"
    and calls: "calls = ?connects @ ?boots" by simp_all
  have no_boot: "BootstrapCall i servers \<notin> set ?connects" for i servers
    by (auto simp: peer_calls_def)
  show "set ?conf = {(Itoa i, LocalAddr (Transport nd)) | i nd. nodes i = Some nd \<and> Bootstrap nd}"
    using assms(1) by (rule set_membership)
  show "\<forall>i. count_list calls (BootstrapCall i ?conf) = (if bootstraps nodes i then 1 else 0)"
  proof
    fix i
    have "count_list calls (BootstrapCall i ?conf) = count_list ?boots (BootstrapCall i ?conf)"
      using calls no_boot [of i ?conf] by simp
    also have "\<dots> = (if i \<in> set (range_boot ord) \<and> bootstraps nodes i then 1 else 0)"
      using assms(3) by (rule count_bootstrap_calls)
    also have "\<dots> = (if bootstraps nodes i then 1 else 0)"
      using assms(2) bootstraps_dom [of nodes i] by auto
    finally show "count_list calls (BootstrapCall i ?conf) = (if bootstraps nodes i then 1 else 0)" .
  qed
  show "\<forall>i servers. BootstrapCall i servers \<in> set calls \<longrightarrow>
          servers = ?conf \<and> bootstraps nodes i \<and> \<not> fails i servers"
  proof (intro allI impI)
    fix i servers assume mem: "BootstrapCall i servers \<in> set calls"
    have "set calls = set ?connects \<union> set ?boots" using calls by (simp only: set_append)
    with mem no_boot [of i servers] have "BootstrapCall i servers \<in> set ?boots" by blast
    then have "servers = ?conf" and "i \<in> set (range_boot ord)" and "bootstraps nodes i" by auto
    then show "servers = ?conf \<and> bootstraps nodes i \<and> \<not> fails i servers" using good by simp
  qed
next
  assume "\<exists>i. bootstraps nodes i \<and> fails i (membership nodes (range_outer ord))"
  then obtain i where i: "bootstraps nodes i" "fails i (membership nodes (range_outer ord))"
    by blast
  then have bad: "\<exists>i\<in>set (range_boot ord). bootstraps nodes i
      \<and> fails i (membership nodes (range_outer ord))"
    using assms(2) bootstraps_dom [of nodes i] by auto
  show "\<exists>e. bootstrapCluster ord fails nodes = Inl e"
  proof (cases "\<exists>i\<in>set (range_outer ord). lacks_peers nodes (range_inner ord) i")
    case True
    then show ?thesis using bootstrapCluster_no_peers [of ord nodes fails] by blast
  next
    case False
    then have "bootstrapCluster ord fails nodes = Inl BootstrapFailed"
      using bad by (intro bootstrapCluster_failed) simp_all
    then show ?thesis by blast
  qed
qed

theorem bootstrapCluster_all_or_nothing_witness:
  "bootstrapCluster trio_orders never_fails trio_nodes
     = Inr [Connect 2 0, Connect 0 2,
            BootstrapCall 2 [(''2'', ''2''), (''0'', ''0'')],
            BootstrapCall 0 [(''2'', ''2''), (''0'', ''0'')]]
   \<and> membership trio_nodes (range_outer trio_orders) = [(''2'', ''2''), (''0'', ''0'')]
   \<and> count_list [Connect 2 0, Connect 0 2,
            BootstrapCall 2 [(''2'', ''2''), (''0'', ''0'')],
            BootstrapCall 0 [(''2'', ''2''), (''0'', ''0'')]]
         (BootstrapCall 1 (membership trio_nodes (range_outer trio_orders))) = 0
   \<and> (\<exists>e. bootstrapCluster trio_orders node2_fails trio_nodes = Inl e)"
proof -
  let ?calls = "[Connect 2 0, Connect 0 2,
            BootstrapCall 2 [(''2'', ''2''), (''0'', ''0'')],
            BootstrapCall 0 [(''2'', ''2''), (''0'', ''0'')]]"
  have h1: "set (range_outer trio_orders) = dom trio_nodes"
    by (auto simp: trio_orders_def trio_nodes_def)
  have h2: "set (range_boot trio_orders) = dom trio_nodes"
    by (auto simp: trio_orders_def trio_nodes_def)
  have h3: "distinct (range_boot trio_orders)" by (simp add: trio_orders_def)
  have b0: "bootstraps trio_nodes 0" and b1: "\<not> bootstraps trio_nodes 1"
    and b2: "bootstraps trio_nodes 2"
    by (simp_all add: bootstraps_def trio_nodes_def newDefaultNode_def)
  have a0: "address trio_nodes 0 = ''0''" and a2: "address trio_nodes 2 = ''2''"
    by (simp_all add: address_def trio_nodes_def newDefaultNode_def Itoa.simps digit_def)
  have i0: "Itoa 0 = ''0''" and i2: "Itoa 2 = ''2''" by (simp_all add: Itoa.simps digit_def)
  have m: "membership trio_nodes (range_outer trio_orders) = [(''2'', ''2''), (''0'', ''0'')]"
    using b0 b1 b2 a0 a2 i0 i2 by (simp add: membership_def trio_orders_def)
  have run: "bootstrapCluster trio_orders never_fails trio_nodes = Inr ?calls"
    using i0 i2
    by (simp add: bootstrapCluster_def trio_orders_def trio_nodes_def newDefaultNode_def
        never_fails_def)
  have bad: "\<exists>i. bootstraps trio_nodes i
      \<and> node2_fails i (membership trio_nodes (range_outer trio_orders))"
    using b2 by (auto simp: node2_fails_def)
  from bootstrapCluster_all_or_nothing [of trio_orders trio_nodes never_fails ?calls, OF h1 h2 h3] run b1
  have c: "count_list ?calls (BootstrapCall 1 (membership trio_nodes (range_outer trio_orders))) = 0"
    by simp
  from bootstrapCluster_all_or_nothing [of trio_orders trio_nodes node2_fails ?calls, OF h1 h2 h3] bad
  have f: "\<exists>e. bootstrapCluster trio_orders node2_fails trio_nodes = Inl e" by blast
  from run m c f show ?thesis by blast
qed

lemma connect_peers_Inl:
  assumes "connect_peers nodes i node1 js calls = Inl e"
  shows "e = NoWithPeers i \<and> \<not> WithPeers (Transport node1)
       \<and> (\<exists>j\<in>set js. j \<noteq> i \<and> bootstraps nodes j)"
proof -
  have no: "\<not> (WithPeers (Transport node1) \<or> \<not> (\<exists>j\<in>set js. j \<noteq> i \<and> bootstraps nodes j))"
  proof
    assume "WithPeers (Transport node1) \<or> \<not> (\<exists>j\<in>set js. j \<noteq> i \<and> bootstraps nodes j)"
    then have "connect_peers nodes i node1 js calls = Inr (calls @ peer_calls nodes js i)"
      by (rule connect_peers_ok)
    then show False using assms by simp
  qed
  then have nw: "\<not> WithPeers (Transport node1)"
    and ex: "\<exists>j\<in>set js. j \<noteq> i \<and> bootstraps nodes j" by blast+
  have "connect_peers nodes i node1 js calls = Inl (NoWithPeers i)"
    using nw ex by (rule connect_peers_fatal)
  then have "e = NoWithPeers i" using assms by simp
  then show ?thesis using nw ex by blast
qed

lemma collect_servers_Inl:
  "collect_servers nodes inner keys servers calls = Inl e \<Longrightarrow>
   \<exists>k\<in>set keys. e = NoWithPeers k \<and> lacks_peers nodes inner k"
proof (induction keys arbitrary: servers calls)
  case Nil
  then show ?case by simp
next
  case (Cons i keys)
  show ?case
  proof (cases "nodes i")
    case None
    then have "collect_servers nodes inner keys servers calls = Inl e" using Cons.prems by simp
    from Cons.IH [OF this] show ?thesis by auto
  next
    case (Some node1)
    show ?thesis
    proof (cases "Bootstrap node1")
      case False
      then have "collect_servers nodes inner keys servers calls = Inl e"
        using Cons.prems Some by simp
      from Cons.IH [OF this] show ?thesis by auto
    next
      case True
      show ?thesis
      proof (cases "connect_peers nodes i node1 (inner i) calls")
        case (Inl e')
        then have "e = e'" using Cons.prems Some True by simp
        moreover from connect_peers_Inl [OF Inl]
        have "e' = NoWithPeers i" and "\<not> WithPeers (Transport node1)"
          and "\<exists>j\<in>set (inner i). j \<noteq> i \<and> bootstraps nodes j" by blast+
        ultimately have "e = NoWithPeers i \<and> lacks_peers nodes inner i"
          using Some True by (simp add: lacks_peers_def)
        then show ?thesis by simp
      next
        case (Inr calls')
        then have "collect_servers nodes inner keys
            (servers @ [(Itoa i, LocalAddr (Transport node1))]) calls' = Inl e"
          using Cons.prems Some True by simp
        from Cons.IH [OF this] show ?thesis by auto
      qed
    qed
  qed
qed

lemma bootstrap_all_Inl:
  "bootstrap_all fails nodes conf keys calls = Inl e \<Longrightarrow> e = BootstrapFailed"
proof (induction keys arbitrary: calls)
  case Nil
  then show ?case by simp
next
  case (Cons i keys)
  show ?case
  proof (cases "nodes i")
    case None
    then have "bootstrap_all fails nodes conf keys calls = Inl e" using Cons.prems by simp
    then show ?thesis by (rule Cons.IH)
  next
    case (Some nd)
    show ?thesis
    proof (cases "Bootstrap nd \<and> fails i conf")
      case True
      then show ?thesis using Cons.prems Some by simp
    next
      case False
      then have "bootstrap_all fails nodes conf keys calls = Inl e
          \<or> bootstrap_all fails nodes conf keys (calls @ [BootstrapCall i conf]) = Inl e"
        using Cons.prems Some by (auto split: if_splits)
      then show ?thesis using Cons.IH by blast
    qed
  qed
qed

lemma bootstrapCluster_NoWithPeers:
  assumes "bootstrapCluster ord fails nodes = Inl (NoWithPeers k)"
  shows "lacks_peers nodes (range_inner ord) k"
proof (cases "collect_servers nodes (range_inner ord) (range_outer ord) [] []")
  case (Inl e)
  then have "e = NoWithPeers k" using assms by (simp add: bootstrapCluster_def)
  moreover from collect_servers_Inl [OF Inl]
  obtain k' where "e = NoWithPeers k'" and "lacks_peers nodes (range_inner ord) k'" by blast
  ultimately show ?thesis by simp
next
  case (Inr res)
  obtain servers calls where res: "res = (servers, calls)" by (cases res) auto
  then have "bootstrap_all fails nodes servers (range_boot ord) calls = Inl (NoWithPeers k)"
    using assms Inr by (simp add: bootstrapCluster_def)
  then have "NoWithPeers k = BootstrapFailed" by (rule bootstrap_all_Inl)
  then show ?thesis by simp
qed

text \<open>
  Claim C4, as the code has it. Let the loops range over exactly the keys of the map of
  nodes. If \<open>bootstrapCluster\<close> returns, its calls are first the connections and only
  then the bootstrap calls, and the connections are those from \<open>i\<close> to \<open>j\<close> for every
  ordered pair of distinct bootstrapping nodes, and no others: a node opted out of the
  bootstrap is on neither side of a connection. If a bootstrapping node whose transport
  has no peer connection has another bootstrapping node to connect to, the construction
  ends in the fatal failure for a missing \<^verbatim>\<open>WithPeers\<close>. And only then: when the
  construction ends in that failure for node \<open>k\<close>, node \<open>k\<close> bootstraps, its transport
  has no peer connection, and another node bootstraps too. The transport of a node that
  bootstraps alone is never checked.
\<close>

theorem bootstrapCluster_full_mesh:
  assumes "set (range_outer ord) = dom nodes" and "\<forall>i. set (range_inner ord i) = dom nodes"
  shows "(bootstrapCluster ord fails nodes = Inr calls \<longrightarrow>
           (\<exists>connects boots. calls = connects @ boots
              \<and> set connects
                  = {Connect i j | i j. i \<noteq> j \<and> bootstraps nodes i \<and> bootstraps nodes j}
              \<and> (\<forall>c\<in>set boots. \<exists>i servers. c = BootstrapCall i servers)))
       \<and> ((\<exists>i j nd. i \<noteq> j \<and> nodes i = Some nd \<and> Bootstrap nd \<and> \<not> WithPeers (Transport nd)
                    \<and> bootstraps nodes j) \<longrightarrow>
            (\<exists>k. bootstrapCluster ord fails nodes = Inl (NoWithPeers k)))
       \<and> (bootstrapCluster ord fails nodes = Inl (NoWithPeers k) \<longrightarrow>
            (\<exists>j nd. k \<noteq> j \<and> nodes k = Some nd \<and> Bootstrap nd \<and> \<not> WithPeers (Transport nd)
                    \<and> bootstraps nodes j))"
proof (intro conjI impI)
  assume ok: "bootstrapCluster ord fails nodes = Inr calls"
  let ?conf = "membership nodes (range_outer ord)"
  let ?connects = "concat (map (\<lambda>i. peer_calls nodes (range_inner ord i) i)
                      (filter (bootstraps nodes) (range_outer ord)))"
  let ?boots = "map (\<lambda>i. BootstrapCall i ?conf) (filter (bootstraps nodes) (range_boot ord))"
  from bootstrapCluster_Inr [OF ok] have calls: "calls = ?connects @ ?boots" by simp
  have "set ?connects
      = {Connect i j | i j. i \<in> set (range_outer ord) \<and> bootstraps nodes i
           \<and> j \<in> set (range_inner ord i) \<and> j \<noteq> i \<and> bootstraps nodes j}"
    by (rule set_peer_calls)
  also have "\<dots> = {Connect i j | i j. i \<noteq> j \<and> bootstraps nodes i \<and> bootstraps nodes j}"
    using assms bootstraps_dom [of nodes] by auto
  finally have mesh: "set ?connects
      = {Connect i j | i j. i \<noteq> j \<and> bootstraps nodes i \<and> bootstraps nodes j}" .
  have boots: "\<forall>c\<in>set ?boots. \<exists>i servers. c = BootstrapCall i servers" by auto
  from calls mesh boots
  show "\<exists>connects boots. calls = connects @ boots
          \<and> set connects = {Connect i j | i j. i \<noteq> j \<and> bootstraps nodes i \<and> bootstraps nodes j}
          \<and> (\<forall>c\<in>set boots. \<exists>i servers. c = BootstrapCall i servers)"
    by blast
next
  assume "\<exists>i j nd. i \<noteq> j \<and> nodes i = Some nd \<and> Bootstrap nd \<and> \<not> WithPeers (Transport nd)
            \<and> bootstraps nodes j"
  then obtain i j nd where ij: "i \<noteq> j" and nd: "nodes i = Some nd" "Bootstrap nd"
    "\<not> WithPeers (Transport nd)" and j: "bootstraps nodes j" by blast
  have "j \<in> set (range_inner ord i)" using assms(2) bootstraps_dom [OF j] by simp
  then have "lacks_peers nodes (range_inner ord) i"
    using ij nd j by (auto simp: lacks_peers_def)
  moreover have "i \<in> set (range_outer ord)" using assms(1) nd(1) by auto
  ultimately have "\<exists>i\<in>set (range_outer ord). lacks_peers nodes (range_inner ord) i" by blast
  then show "\<exists>k. bootstrapCluster ord fails nodes = Inl (NoWithPeers k)"
    by (rule bootstrapCluster_no_peers)
next
  assume "bootstrapCluster ord fails nodes = Inl (NoWithPeers k)"
  then have "lacks_peers nodes (range_inner ord) k" by (rule bootstrapCluster_NoWithPeers)
  then show "\<exists>j nd. k \<noteq> j \<and> nodes k = Some nd \<and> Bootstrap nd \<and> \<not> WithPeers (Transport nd)
                    \<and> bootstraps nodes j"
    by (auto simp: lacks_peers_def split: option.splits)
qed

theorem bootstrapCluster_full_mesh_witness:
  "(\<exists>connects boots.
       [Connect 2 0, Connect 0 2,
        BootstrapCall 2 [(''2'', ''2''), (''0'', ''0'')],
        BootstrapCall 0 [(''2'', ''2''), (''0'', ''0'')]] = connects @ boots
     \<and> set connects
         = {Connect i j | i j. i \<noteq> j \<and> bootstraps trio_nodes i \<and> bootstraps trio_nodes j}
     \<and> (\<forall>c\<in>set boots. \<exists>i servers. c = BootstrapCall i servers))
   \<and> bootstrapCluster trio_orders never_fails (trio_nodes(0 \<mapsto> lone_node)) = Inl (NoWithPeers 0)
   \<and> (\<exists>j nd. 0 \<noteq> j \<and> (trio_nodes(0 \<mapsto> lone_node)) 0 = Some nd \<and> Bootstrap nd
         \<and> \<not> WithPeers (Transport nd) \<and> bootstraps (trio_nodes(0 \<mapsto> lone_node)) j)
   \<and> bootstrapCluster lone_orders never_fails lone_nodes \<noteq> Inl (NoWithPeers 0)"
proof -
  let ?calls = "[Connect 2 0, Connect 0 2,
            BootstrapCall 2 [(''2'', ''2''), (''0'', ''0'')],
            BootstrapCall 0 [(''2'', ''2''), (''0'', ''0'')]]"
  let ?nodes = "trio_nodes(0 \<mapsto> lone_node)"
  have h1: "set (range_outer trio_orders) = dom trio_nodes"
    by (auto simp: trio_orders_def trio_nodes_def)
  have h2: "\<forall>i. set (range_inner trio_orders i) = dom trio_nodes"
    by (auto simp: trio_orders_def trio_nodes_def)
  have g1: "set (range_outer trio_orders) = dom ?nodes"
    by (auto simp: trio_orders_def trio_nodes_def)
  have g2: "\<forall>i. set (range_inner trio_orders i) = dom ?nodes"
    by (auto simp: trio_orders_def trio_nodes_def)
  have i0: "Itoa 0 = ''0''" and i2: "Itoa 2 = ''2''" by (simp_all add: Itoa.simps digit_def)
  have run: "bootstrapCluster trio_orders never_fails trio_nodes = Inr ?calls"
    using i0 i2
    by (simp add: bootstrapCluster_def trio_orders_def trio_nodes_def newDefaultNode_def
        never_fails_def)
  have bad: "bootstrapCluster trio_orders never_fails ?nodes = Inl (NoWithPeers 0)"
    using i2
    by (simp add: bootstrapCluster_def trio_orders_def trio_nodes_def newDefaultNode_def
        lone_node_def never_fails_def)
  from bootstrapCluster_full_mesh [of trio_orders trio_nodes never_fails ?calls 0, OF h1 h2] run
  have mesh: "\<exists>connects boots. ?calls = connects @ boots
     \<and> set connects
         = {Connect i j | i j. i \<noteq> j \<and> bootstraps trio_nodes i \<and> bootstraps trio_nodes j}
     \<and> (\<forall>c\<in>set boots. \<exists>i servers. c = BootstrapCall i servers)"
    by blast
  from bootstrapCluster_full_mesh [of trio_orders ?nodes never_fails ?calls 0, OF g1 g2] bad
  have pair: "\<exists>j nd. 0 \<noteq> j \<and> ?nodes 0 = Some nd \<and> Bootstrap nd
         \<and> \<not> WithPeers (Transport nd) \<and> bootstraps ?nodes j"
    by blast
  have l1: "set (range_outer lone_orders) = dom lone_nodes"
    by (auto simp: lone_orders_def lone_nodes_def)
  have l2: "\<forall>i. set (range_inner lone_orders i) = dom lone_nodes"
    by (auto simp: lone_orders_def lone_nodes_def)
  have alone: "\<not> (\<exists>j nd. (0::nat) \<noteq> j \<and> lone_nodes 0 = Some nd \<and> Bootstrap nd
         \<and> \<not> WithPeers (Transport nd) \<and> bootstraps lone_nodes j)"
    by (auto simp: lone_nodes_def bootstraps_def split: if_splits)
  from bootstrapCluster_full_mesh [of lone_orders lone_nodes never_fails ?calls 0, OF l1 l2] alone
  have skipped: "bootstrapCluster lone_orders never_fails lone_nodes \<noteq> Inl (NoWithPeers 0)"
    by blast
  from mesh bad pair skipped show ?thesis by blast
qed

text \<open>
  Claim C4 as the spec words it, that the construction fails whenever the transport of
  a bootstrapping node has no peer connection, does not hold of a node that bootstraps
  alone: the type assertion is never reached, and the bootstrap goes through.
\<close>

theorem bootstrapCluster_lone_node_unchecked:
  "Bootstrap lone_node \<and> \<not> WithPeers (Transport lone_node)
   \<and> lone_nodes 0 = Some lone_node
   \<and> bootstrapCluster lone_orders never_fails lone_nodes
       = Inr [BootstrapCall 0 [(''0'', ''0'')]]"
  by (simp add: bootstrapCluster_def lone_orders_def lone_nodes_def lone_node_def
      newDefaultNode_def never_fails_def Itoa.simps digit_def)

section \<open>Properties of the default timeouts\<close>

text \<open>
  Claim C7, as the code has it. Every default node gets heartbeat, election and
  leader-lease timeouts of ten milliseconds and a commit timeout of five milliseconds,
  each put through the latency scaling. At the multiplier 1 the scaling changes nothing,
  so the timeouts are ten and five milliseconds; in general the scaled timeout is the
  product of the multiplier and the default, cut down to whole nanoseconds.
\<close>

theorem newDefaultNode_timeouts:
  "HeartbeatTimeout (Config (newDefaultNode latency i)) = Duration latency (10 * Millisecond)
   \<and> ElectionTimeout (Config (newDefaultNode latency i)) = Duration latency (10 * Millisecond)
   \<and> LeaderLeaseTimeout (Config (newDefaultNode latency i)) = Duration latency (10 * Millisecond)
   \<and> CommitTimeout (Config (newDefaultNode latency i)) = Duration latency (5 * Millisecond)
   \<and> Duration 1 d = d
   \<and> HeartbeatTimeout (Config (newDefaultNode 1 i)) = 10 * Millisecond
   \<and> ElectionTimeout (Config (newDefaultNode 1 i)) = 10 * Millisecond
   \<and> LeaderLeaseTimeout (Config (newDefaultNode 1 i)) = 10 * Millisecond
   \<and> CommitTimeout (Config (newDefaultNode 1 i)) = 5 * Millisecond
   \<and> real_of_int (Duration latency d) \<le> latency * real_of_int d
   \<and> latency * real_of_int d < real_of_int (Duration latency d) + 1"
proof -
  have one: "Duration 1 e = e" for e by (simp add: Duration_def)
  have "real_of_int (Duration latency d) \<le> latency * real_of_int d"
    and "latency * real_of_int d < real_of_int (Duration latency d) + 1"
    unfolding Duration_def by linarith+
  then show ?thesis using one by (simp add: newDefaultNode_def)
qed

text \<open>
  Claim C7 as the spec words it has the default timeouts below ten and below five
  milliseconds. At the multiplier 1 the heartbeat timeout of node 0 is ten milliseconds
  and its commit timeout five milliseconds: neither is below its bound.
\<close>

theorem newDefaultNode_timeouts_not_below:
  "HeartbeatTimeout (Config (newDefaultNode 1 0)) = 10000000
   \<and> \<not> HeartbeatTimeout (Config (newDefaultNode 1 0)) < 10 * Millisecond
   \<and> CommitTimeout (Config (newDefaultNode 1 0)) = 5000000
   \<and> \<not> CommitTimeout (Config (newDefaultNode 1 0)) < 5 * Millisecond"
  by (simp add: newDefaultNode_def Duration_def Millisecond_def)

section \<open>Properties of the shutdown\<close>

lemma collect_keeps_requests:
  "\<exists>waits. fst (collect timeout arriving acts) = acts @ waits \<and> (\<forall>a\<in>set waits. \<forall>i. a \<noteq> Request i)"
proof (induction arriving arbitrary: acts)
  case Nil
  show ?case by simp
next
  case (Cons f arriving)
  show ?case
  proof (cases "(done_at f < timeout \<or> (done_at f = timeout \<and> before_timer f)) \<and> err f = None")
    case True
    from Cons.IH [of "acts @ [Received None]"] obtain waits where
      w: "fst (collect timeout arriving (acts @ [Received None])) = (acts @ [Received None]) @ waits"
      and n: "\<forall>a\<in>set waits. \<forall>i. a \<noteq> Request i" by blast
    have "fst (collect timeout (f # arriving) acts) = acts @ (Received None # waits)"
      using True w by simp
    moreover have "\<forall>a\<in>set (Received None # waits). \<forall>i. a \<noteq> Request i" using n by simp
    ultimately show ?thesis by blast
  next
    case False
    then have "fst (collect timeout (f # arriving) acts) = acts @ [TimerFired]
        \<or> (\<exists>e. fst (collect timeout (f # arriving) acts) = acts @ [Received (Some e)])"
      by (cases "err f") auto
    then show ?thesis
    proof
      assume "fst (collect timeout (f # arriving) acts) = acts @ [TimerFired]"
      moreover have "\<forall>a\<in>set [TimerFired]. \<forall>i. a \<noteq> Request i" by simp
      ultimately show ?thesis by blast
    next
      assume "\<exists>e. fst (collect timeout (f # arriving) acts) = acts @ [Received (Some e)]"
      then obtain e where "fst (collect timeout (f # arriving) acts) = acts @ [Received (Some e)]"
        by blast
      moreover have "\<forall>a\<in>set [Received (Some e)]. \<forall>i. a \<noteq> Request i" by simp
      ultimately show ?thesis by blast
    qed
  qed
qed

lemma collect_returns:
  "\<forall>f\<in>set arriving. done_at f < timeout \<and> err f = None \<Longrightarrow>
   snd (collect timeout arriving acts) = None"
  by (induction arriving arbitrary: acts) auto

lemma collect_fails:
  "\<exists>f\<in>set arriving. err f \<noteq> None \<or> timeout < done_at f \<Longrightarrow>
   \<exists>e. snd (collect timeout arriving acts) = Some e"
proof (induction arriving arbitrary: acts)
  case Nil
  then show ?case by simp
next
  case (Cons f arriving)
  show ?case
  proof (cases "(done_at f < timeout \<or> (done_at f = timeout \<and> before_timer f)) \<and> err f = None")
    case True
    then have "\<exists>f\<in>set arriving. err f \<noteq> None \<or> timeout < done_at f" using Cons.prems by auto
    then have "\<exists>e. snd (collect timeout arriving (acts @ [Received None])) = Some e"
      by (rule Cons.IH)
    then show ?thesis using True by simp
  next
    case False
    then show ?thesis by (cases "err f") auto
  qed
qed

text \<open>
  Claim C6. \<open>Shutdown\<close> first requests the shutdown of every node, in the order of the
  slice, and only then waits: nothing after the requests is a request. The ceiling is
  one timer of five seconds, armed once after the requests, and every node has until it
  fires. If every node reports success before that, \<open>Shutdown\<close> returns with no failure. If
  some node reports an error, or some node takes longer than the five seconds, the
  test is failed fatally.
\<close>

theorem Shutdown_requests_then_waits:
  "(\<exists>waits. fst (Shutdown shutdown rafts) = map Request [0..<length rafts] @ waits
             \<and> (\<forall>a\<in>set waits. \<forall>i. a \<noteq> Request i))
   \<and> ((\<forall>r\<in>set rafts. done_at (shutdown r) < 5 * Second \<and> err (shutdown r) = None)
          \<longrightarrow> snd (Shutdown shutdown rafts) = None)
   \<and> ((\<exists>r\<in>set rafts. err (shutdown r) \<noteq> None \<or> 5 * Second < done_at (shutdown r))
          \<longrightarrow> (\<exists>e. snd (Shutdown shutdown rafts) = Some e))"
proof (intro conjI impI)
  show "\<exists>waits. fst (Shutdown shutdown rafts) = map Request [0..<length rafts] @ waits
             \<and> (\<forall>a\<in>set waits. \<forall>i. a \<noteq> Request i)"
    using collect_keeps_requests
      [of "5 * Second" "sort_key done_at (map shutdown rafts)" "map Request [0..<length rafts]"]
    by (simp add: Shutdown_def)
next
  assume "\<forall>r\<in>set rafts. done_at (shutdown r) < 5 * Second \<and> err (shutdown r) = None"
  then have "\<forall>f\<in>set (sort_key done_at (map shutdown rafts)). done_at f < 5 * Second \<and> err f = None"
    by simp
  then show "snd (Shutdown shutdown rafts) = None"
    by (simp add: Shutdown_def collect_returns)
next
  assume "\<exists>r\<in>set rafts. err (shutdown r) \<noteq> None \<or> 5 * Second < done_at (shutdown r)"
  then have "\<exists>f\<in>set (sort_key done_at (map shutdown rafts)). err f \<noteq> None \<or> 5 * Second < done_at f"
    by simp
  then have "\<exists>e. snd (collect (5 * Second) (sort_key done_at (map shutdown rafts))
      (map Request [0..<length rafts])) = Some e"
    by (rule collect_fails)
  then show "\<exists>e. snd (Shutdown shutdown rafts) = Some e" by (simp add: Shutdown_def)
qed

theorem Shutdown_requests_then_waits_witness:
  "Shutdown prompt [0, 1, 2]
     = ([Request 0, Request 1, Request 2, Received None, Received None, Received None], None)
   \<and> (\<exists>e. snd (Shutdown second_slow [0, 1, 2]) = Some e)"
proof -
  have h1: "\<forall>r\<in>set [0, 1, 2]. done_at (prompt r) < 5 * Second \<and> err (prompt r) = None"
    by (simp add: prompt_def Second_def Millisecond_def)
  have h2: "\<exists>r\<in>set [0, 1, 2]. err (second_slow r) \<noteq> None \<or> 5 * Second < done_at (second_slow r)"
    by (simp add: second_slow_def Second_def Millisecond_def)
  have run: "fst (Shutdown prompt [0, 1, 2])
      = [Request 0, Request 1, Request 2, Received None, Received None, Received None]"
    by (simp add: Shutdown_def prompt_def Second_def Millisecond_def upt_rec)
  from Shutdown_requests_then_waits [of prompt "[0, 1, 2]"] h1
  have ok: "snd (Shutdown prompt [0, 1, 2]) = None" by blast
  from Shutdown_requests_then_waits [of second_slow "[0, 1, 2]"] h2
  have bad: "\<exists>e. snd (Shutdown second_slow [0, 1, 2]) = Some e" by blast
  from run ok have "Shutdown prompt [0, 1, 2]
     = ([Request 0, Request 1, Request 2, Received None, Received None, Received None], None)"
    by (simp add: prod_eq_iff)
  then show ?thesis using bad by blast
qed

section \<open>Properties of the cluster builder\<close>

lemma fold_fill:
  "fold (\<lambda>i nodes. nodes(i \<mapsto> g i)) [0..<n] m = (\<lambda>i. if i < n then Some (g i) else m i)"
proof (induction n)
  case 0
  show ?case by simp
next
  case (Suc n)
  then show ?case by (auto simp: fun_eq_iff)
qed

lemma default_nodes_eq:
  "default_nodes latency n = (\<lambda>i. if i < n then Some (newDefaultNode latency i) else None)"
  by (simp add: default_nodes_def fold_fill)

lemma newRafts_started:
  "newRafts start nodes i fsms = Inr rafts \<Longrightarrow>
   length rafts = length fsms
   \<and> (\<forall>k<length fsms. \<exists>nd. nodes (i + k) = Some nd \<and> start (fsms ! k) nd = Some (rafts ! k))"
proof (induction fsms arbitrary: i rafts)
  case Nil
  then show ?case by simp
next
  case (Cons fsm fsms)
  from Cons.prems obtain nd raft rest where nd: "nodes i = Some nd"
    and raft: "start fsm nd = Some raft"
    and rest: "newRafts start nodes (Suc i) fsms = Inr rest"
    and rafts: "rafts = raft # rest"
    by (auto split: option.splits sum.splits)
  from Cons.IH [OF rest] have len: "length rest = length fsms"
    and each: "\<forall>k<length fsms. \<exists>nd. nodes (Suc i + k) = Some nd
        \<and> start (fsms ! k) nd = Some (rest ! k)" by simp_all
  have "\<forall>k<length (fsm # fsms). \<exists>nd. nodes (i + k) = Some nd
      \<and> start ((fsm # fsms) ! k) nd = Some (rafts ! k)"
  proof (intro allI impI)
    fix k assume k: "k < length (fsm # fsms)"
    show "\<exists>nd. nodes (i + k) = Some nd \<and> start ((fsm # fsms) ! k) nd = Some (rafts ! k)"
    proof (cases k)
      case 0
      then show ?thesis using nd raft rafts by simp
    next
      case (Suc j)
      then have "j < length fsms" using k by simp
      then obtain nd' where "nodes (Suc i + j) = Some nd'"
        and "start (fsms ! j) nd' = Some (rest ! j)" using each by blast
      then show ?thesis using Suc rafts by simp
    qed
  qed
  then show ?case using len rafts by simp
qed

text \<open>
  Claim C5. For a list of state machines and any list of knobs, \<open>Cluster\<close> either ends
  in a fatal failure or returns as many nodes as there are state machines, together
  with the closure that shuts these nodes down; the node at index \<open>i\<close> is the one the
  engine has started from the state machine \<open>i\<close> and the dependencies at key \<open>i\<close> as
  the knobs have left them. The dependencies it starts from are one default node for
  each index from 0 up to the number of state machines, each flagged for bootstrap and
  with its index as its id.
\<close>

theorem Cluster_all_nodes_or_failure:
  "((\<exists>e. Cluster w fsms knobs = Inl e)
     \<or> (\<exists>rafts nodes.
          Cluster w fsms knobs = Inr (rafts, \<lambda>shutdown. Shutdown shutdown rafts)
        \<and> length rafts = length fsms
        \<and> run_pre knobs (default_nodes (test_latency w) (length fsms)) = Inr nodes
        \<and> (\<forall>i<length fsms. \<exists>nd. nodes i = Some nd \<and> NewRaft w (fsms ! i) nd = Some (rafts ! i))))
   \<and> dom (default_nodes latency n) = {0..<n}
   \<and> (\<forall>i<n. default_nodes latency n i = Some (newDefaultNode latency i)
             \<and> Bootstrap (newDefaultNode latency i)
             \<and> LocalID (Config (newDefaultNode latency i)) = Itoa i)"
proof (intro conjI)
  show "dom (default_nodes latency n) = {0..<n}"
    by (auto simp: default_nodes_eq split: if_splits)
next
  show "\<forall>i<n. default_nodes latency n i = Some (newDefaultNode latency i)
             \<and> Bootstrap (newDefaultNode latency i)
             \<and> LocalID (Config (newDefaultNode latency i)) = Itoa i"
    by (simp add: default_nodes_eq newDefaultNode_def)
next
  show "(\<exists>e. Cluster w fsms knobs = Inl e)
     \<or> (\<exists>rafts nodes.
          Cluster w fsms knobs = Inr (rafts, \<lambda>shutdown. Shutdown shutdown rafts)
        \<and> length rafts = length fsms
        \<and> run_pre knobs (default_nodes (test_latency w) (length fsms)) = Inr nodes
        \<and> (\<forall>i<length fsms. \<exists>nd. nodes i = Some nd \<and> NewRaft w (fsms ! i) nd = Some (rafts ! i)))"
  proof (cases "Cluster w fsms knobs")
    case (Inl e)
    then show ?thesis by blast
  next
    case (Inr res)
    then obtain nodes calls rafts where
      pre: "run_pre knobs (default_nodes (test_latency w) (length fsms)) = Inr nodes"
      and "bootstrapCluster (map_ranges w) (bootstrap_fails w) nodes = Inr calls"
      and new: "newRafts (NewRaft w) nodes 0 fsms = Inr rafts"
      and "run_post knobs rafts = None"
      and res: "res = (rafts, \<lambda>shutdown. Shutdown shutdown rafts)"
      by (auto simp: Cluster_def Let_def split: sum.splits option.splits)
    from newRafts_started [OF new] have "length rafts = length fsms"
      and "\<forall>i<length fsms. \<exists>nd. nodes i = Some nd \<and> NewRaft w (fsms ! i) nd = Some (rafts ! i)"
      by simp_all
    then show ?thesis using Inr res pre by blast
  qed
qed

theorem Cluster_all_nodes_or_failure_witness:
  "Cluster trio_engine [''a'', ''b'', ''c''] [without_1]
     = Inr ([(''a'', ''0''), (''b'', ''1''), (''c'', ''2'')],
            \<lambda>shutdown. Shutdown shutdown [(''a'', ''0''), (''b'', ''1''), (''c'', ''2'')])
   \<and> dom (default_nodes 1 3) = {0..<3}
   \<and> default_nodes 1 3 2 = Some (newDefaultNode 1 2)
   \<and> Bootstrap (newDefaultNode 1 2)"
proof -
  let ?fsms = "[''a'', ''b'', ''c'']"
  let ?rafts = "[(''a'', ''0''), (''b'', ''1''), (''c'', ''2'')]"
  have i0: "Itoa 0 = ''0''" and i1: "Itoa 1 = ''1''" and i2: "Itoa 2 = ''2''"
    by (simp_all add: Itoa.simps digit_def)
  have nodes: "run_pre [without_1] (default_nodes 1 3)
      = Inr ((default_nodes 1 3)(1 \<mapsto> (newDefaultNode 1 1)\<lparr>Bootstrap := False\<rparr>))"
    by (simp add: without_1_def default_nodes_eq)
  have boot: "bootstrapCluster trio_orders never_fails
        ((default_nodes 1 3)(1 \<mapsto> (newDefaultNode 1 1)\<lparr>Bootstrap := False\<rparr>))
      = Inr [Connect 2 0, Connect 0 2,
            BootstrapCall 2 [(''2'', ''2''), (''0'', ''0'')],
            BootstrapCall 0 [(''2'', ''2''), (''0'', ''0'')]]"
    using i0 i2
    by (simp add: bootstrapCluster_def trio_orders_def default_nodes_eq newDefaultNode_def
        never_fails_def)
  have new: "newRafts started
        ((default_nodes 1 3)(1 \<mapsto> (newDefaultNode 1 1)\<lparr>Bootstrap := False\<rparr>)) 0 ?fsms
      = Inr ?rafts"
  proof -
    have s2: "Itoa (Suc (Suc 0)) = ''2''" using i2 by (simp add: numeral_2_eq_2)
    show ?thesis
      using i0 i1 s2 by (simp add: started_def default_nodes_eq newDefaultNode_def)
  qed
  have run: "Cluster trio_engine ?fsms [without_1]
      = Inr (?rafts, \<lambda>shutdown. Shutdown shutdown ?rafts)"
  proof -
    have e: "test_latency trio_engine = 1" "map_ranges trio_engine = trio_orders"
      "bootstrap_fails trio_engine = never_fails" "NewRaft trio_engine = started"
      by (simp_all add: trio_engine_def)
    have three: "length ?fsms = 3" by simp
    have post: "run_post [without_1] ?rafts = None" by (simp add: without_1_def)
    show ?thesis
      by (simp only: Cluster_def Let_def e three nodes boot new post sum.case option.case)
  qed
  have lt: "(2::nat) < 3" by simp
  from Cluster_all_nodes_or_failure [of trio_engine ?fsms "[without_1]" 1 3] lt
  have "dom (default_nodes 1 3) = {0..<3}
      \<and> default_nodes 1 3 2 = Some (newDefaultNode 1 2)
      \<and> Bootstrap (newDefaultNode 1 2)"
    by blast
  then show ?thesis using run by blast
qed

end
